theory Spec2Isabelle
  imports Main "HOL-Library.Sublist" "HOL-Library.Char_ord" "HOL-Library.List_Lexorder"
begin

section \<open>Go strings\<close>

text \<open>
  A Go string is a sequence of bytes; it is modelled as a \<open>string\<close> (a list of
  characters). The functions of package \<open>strings\<close> that the server calls are
  given by what they compute. Indices are \<open>int\<close>, with \<open>-1\<close> for "not found",
  as in Go.
\<close>

text \<open>\<open>strings.HasPrefix(s, prefix)\<close>:
  \<open>len(s) >= len(prefix) && s[:len(prefix)] == prefix\<close>.\<close>

definition HasPrefix :: "string \<Rightarrow> string \<Rightarrow> bool" where
  "HasPrefix s pre = (length pre \<le> length s \<and> take (length pre) s = pre)"

text \<open>\<open>strings.HasSuffix(s, suffix)\<close>:
  \<open>len(s) >= len(suffix) && s[len(s)-len(suffix):] == suffix\<close>.\<close>

definition HasSuffix :: "string \<Rightarrow> string \<Rightarrow> bool" where
  "HasSuffix s suf = (length suf \<le> length s \<and> drop (length s - length suf) s = suf)"

text \<open>\<open>strings.Index(s, substr)\<close>: the index of the first instance of
  \<open>substr\<close> in \<open>s\<close>, or \<open>-1\<close>.\<close>

fun Index :: "string \<Rightarrow> string \<Rightarrow> int" where
  "Index [] sub = (if sub = [] then 0 else -1)"
| "Index (c # s) sub =
     (if HasPrefix (c # s) sub then 0
      else (let r = Index s sub in if 0 \<le> r then r + 1 else -1))"

text \<open>\<open>strings.LastIndex(s, substr)\<close>: the index of the last instance of
  \<open>substr\<close> in \<open>s\<close>, or \<open>-1\<close>.\<close>

fun LastIndex :: "string \<Rightarrow> string \<Rightarrow> int" where
  "LastIndex [] sub = (if sub = [] then 0 else -1)"
| "LastIndex (c # s) sub =
     (let r = LastIndex s sub in
      if 0 \<le> r then r + 1
      else if HasPrefix (c # s) sub then 0 else -1)"

text \<open>\<open>strings.Contains(s, substr)\<close> is \<open>Index(s, substr) >= 0\<close>.\<close>

definition Contains :: "string \<Rightarrow> string \<Rightarrow> bool" where
  "Contains s sub = (0 \<le> Index s sub)"

text \<open>\<open>strings.Split(s, sep)\<close> for a separator of one byte (the server only splits
  on \<open>"/"\<close>): the pieces between the separators, so that the empty string gives one
  empty piece.\<close>

fun Split :: "string \<Rightarrow> char \<Rightarrow> string list" where
  "Split [] sep = [[]]"
| "Split (c # s) sep =
     (if c = sep then [] # Split s sep
      else (case Split s sep of [] \<Rightarrow> [[c]] | p # ps \<Rightarrow> (c # p) # ps))"

text \<open>\<open>strings.Join(elems, sep)\<close>.\<close>

fun Join :: "string list \<Rightarrow> string \<Rightarrow> string" where
  "Join [] sep = []"
| "Join [x] sep = x"
| "Join (x # y # ys) sep = x @ sep @ Join (y # ys) sep"

section \<open>Errors\<close>

text \<open>The anonymous struct that the output of \<open>go mod download -json\<close> is decoded
  into.\<close>

record goModInfo =
  Path :: string
  Version :: string
  Query :: string
  Info :: string
  GoMod :: string
  Zip :: string
  Dir :: string
  Sum :: string
  GoModSum :: string

text \<open>
  The values a call can fail with. \<open>FunctionEmpty\<close> is the \<open>errors.New\<close> value of
  \<open>resolveImportPath\<close>; \<open>EOF\<close> is \<open>io.EOF\<close>; \<open>ErrInvalid\<close> is
  \<open>os.ErrInvalid\<close>, which the methods of a nil \<open>*os.File\<close> return;
  \<open>External\<close> is an error made outside the program (a failed command, malformed JSON, a
  failed \<open>open\<close> or \<open>read\<close>), told apart by its message; \<open>Errorf\<close> is the value of
  \<open>fmt.Errorf("%+#v: %w", goModInfo, exitErr)\<close>. \<open>PanicSliceBounds\<close> is the run-time panic
  "slice bounds out of range", which is not an \<open>error\<close> value in Go but ends the call
  all the same.
\<close>

datatype error =
    FunctionEmpty
  | EOF
  | ErrInvalid
  | External string
  | Errorf goModInfo error
  | PanicSliceBounds

section \<open>resolveImportPath\<close>

record SourceSpec =
  Repo :: string
  RelativePath :: string
  Revision :: string

text \<open>The zero value of \<open>var spec SourceSpec\<close>.\<close>

definition zeroSpec :: SourceSpec where
  "zeroSpec = \<lparr>Repo = [], RelativePath = [], Revision = []\<rparr>"

text \<open>
  The loop over \<open>pathParts\<close> that looks for a go.mod version specifier. It ends in one
  of two ways: \<open>Return spec\<close> when the function returns from inside the loop (a
  relative path with a specifier), and \<open>Fallthrough spec pathParts\<close> when control
  reaches the statement after the loop (by \<open>break\<close> or because no part has an
  \<open>@\<close>), with the values the two variables have then.

  The slices of the loop body are always in range: \<open>pos\<close> is the index of a byte of
  \<open>pathParts[idx]\<close>, and \<open>idx + 1 \<le> len(pathParts)\<close>.
\<close>

datatype scan = Return SourceSpec | Fallthrough SourceSpec "string list"

function scanLoop :: "string \<Rightarrow> string list \<Rightarrow> nat \<Rightarrow> SourceSpec \<Rightarrow> scan" where
  "scanLoop path pathParts idx spec =
     (if idx < length pathParts then
        (let pos = LastIndex (pathParts ! idx) ''@'' in
         if 0 \<le> pos then
           (let spec1 = spec\<lparr>Revision := drop (nat pos + 1) (pathParts ! idx)\<rparr>;
                pathParts1 = pathParts[idx := take (nat pos) (pathParts ! idx)];
                spec2 = spec1\<lparr>RelativePath := Join (drop (idx + 1) pathParts1) ''/''\<rparr>
            in if \<not> HasPrefix path ''/''
               then Return (spec2\<lparr>Repo := Join (take (idx + 1) pathParts1) ''/''\<rparr>)
               else Fallthrough spec2 pathParts1)
         else scanLoop path pathParts (idx + 1) spec)
      else Fallthrough spec pathParts)"
  by pat_completeness auto
termination
  by (relation "measure (\<lambda>(path, pathParts, idx, spec). length pathParts - idx)") auto

text \<open>
  The parts of the function name: split on \<open>"/"\<close>, and the last part cut at its first
  \<open>"."\<close>, which removes the function (and receiver) name from the import path.
  \<open>strings.Split\<close> never returns an empty slice, so \<open>len(functionParts)-1\<close> is a
  valid index.
\<close>

definition functionParts :: "string \<Rightarrow> string list" where
  "functionParts function =
     (let parts = Split function CHR ''/'';
          n = length parts - 1;
          posDot = Index (parts ! n) ''.''
      in if 0 \<le> posDot then parts[n := take (nat posDot) (parts ! n)] else parts)"

text \<open>
  \<open>resolveImportPath(function, path)\<close>. The result is \<open>Inr spec\<close> for
  \<open>return &spec, nil\<close> and \<open>Inl e\<close> for an error or a panic.
  \<open>pathParts[startIndex:]\<close> panics when \<open>startIndex\<close> is negative;
  \<open>startIndex\<close> is never above \<open>len(pathParts)\<close>.
\<close>

definition resolveImportPath :: "string \<Rightarrow> string \<Rightarrow> error + SourceSpec" where
  "resolveImportPath function path =
     (case scanLoop path (Split path CHR ''/'') 0 zeroSpec of
        Return spec \<Rightarrow> Inr spec
      | Fallthrough spec pathParts \<Rightarrow>
          if function = [] then Inl FunctionEmpty
          else
            (let fParts = functionParts function;
                 pos = LastIndex path (fParts ! 0)
             in if \<not> Contains (fParts ! 0) ''.'' \<and> 0 \<le> pos
                then Inr \<lparr>Repo = [], RelativePath = drop (nat pos) path, Revision = []\<rparr>
                else
                  (let take3 = (Repo spec = [] \<and> 3 \<le> length fParts);
                       spec3 = (if take3 then spec\<lparr>Repo := Join (take 3 fParts) ''/''\<rparr> else spec);
                       fParts3 = (if take3 then drop 3 fParts else fParts)
                   in if RelativePath spec3 = [] then
                        (let startIndex = int (length pathParts) - int (length fParts3) - 1
                         in if startIndex < 0 then Inl PanicSliceBounds
                            else Inr (spec3\<lparr>RelativePath :=
                                         Join (drop (nat startIndex) pathParts) ''/''\<rparr>))
                      else Inr spec3)))"

section \<open>The world outside the program\<close>

text \<open>
  An open \<open>*os.File\<close>: the bytes that reading it yields, and the error (if any) that
  the read ends with instead of the end of file.
\<close>

record osFile =
  content :: string
  readErr :: "error option"

text \<open>One call of the \<open>filepath.WalkDir\<close> callback: the path and whether
  \<open>d.IsDir()\<close> holds.\<close>

record dirEntry =
  entryPath :: string
  entryIsDir :: bool

text \<open>
  What the program obtains from outside, as parameters:
  \<^item> \<open>goEnvGOROOT\<close>: \<open>exec.Command("go", "env", "GOROOT").Output()\<close>;
  \<^item> \<open>runGoModDownload arg\<close>: running \<open>go mod download -json arg\<close>, giving the
    bytes on its standard output and the result of \<open>c.Run()\<close>;
  \<^item> \<open>jsonUnmarshal\<close>: \<open>json.Unmarshal\<close> into the \<open>goModInfo\<close> struct;
  \<^item> \<open>walkDir root\<close>: the calls that \<open>filepath.WalkDir(root, fn)\<close> makes to a
    callback that always returns \<open>nil\<close>, in order (the root is found, so that
    \<open>d\<close> is never nil);
  \<^item> \<open>osOpen\<close>: \<open>os.Open\<close>;
  \<^item> \<open>filepathJoin\<close> and \<open>stringsTrimSpace\<close>: the library functions
    \<open>filepath.Join\<close> and \<open>strings.TrimSpace\<close>.
\<close>

record env =
  goEnvGOROOT :: "error + string"
  runGoModDownload :: "string \<Rightarrow> string \<times> error option"
  jsonUnmarshal :: "string \<Rightarrow> error + goModInfo"
  walkDir :: "string \<Rightarrow> dirEntry list"
  osOpen :: "string \<Rightarrow> error + osFile"
  filepathJoin :: "string list \<Rightarrow> string"
  stringsTrimSpace :: "string \<Rightarrow> string"

text \<open>
  The \<open>io.Writer\<close> that the content is written to is the HTTP response: the status,
  once the header has been written (\<open>None\<close> before; the server sends 200 for a handler
  that returns without writing one), and the bytes of the body so far. Writing to it does
  not fail in the model.
\<close>

record response =
  status :: "nat option"
  body :: string

text \<open>\<open>w.WriteHeader(code)\<close>: only the first call sets the status.\<close>

definition WriteHeader :: "response \<Rightarrow> nat \<Rightarrow> response" where
  "WriteHeader w code = (case status w of None \<Rightarrow> w\<lparr>status := Some code\<rparr> | Some c \<Rightarrow> w)"

text \<open>\<open>w.Write(data)\<close>: writes the header with status 200 if none was written.\<close>

definition Write :: "response \<Rightarrow> string \<Rightarrow> response" where
  "Write w data = (WriteHeader w 200)\<lparr>body := body w @ data\<rparr>"

text \<open>\<open>http.Error(w, msg, code)\<close>: \<open>w.WriteHeader(code)\<close>, then
  \<open>fmt.Fprintln(w, msg)\<close>.\<close>

definition httpError :: "response \<Rightarrow> string \<Rightarrow> nat \<Rightarrow> response" where
  "httpError w msg code = Write (WriteHeader w code) (msg @ [CHR 0x0A])"

text \<open>
  \<open>io.Copy(w, f)\<close> for an \<open>*os.File\<close> \<open>f\<close>, which is \<open>None\<close> for the nil
  pointer: reading a nil file fails with \<open>os.ErrInvalid\<close> and writes nothing. An empty
  file causes no call of \<open>Write\<close>.
\<close>

definition ioCopy :: "response \<Rightarrow> osFile option \<Rightarrow> error option \<times> response" where
  "ioCopy w f =
     (case f of
        None \<Rightarrow> (Some ErrInvalid, w)
      | Some fl \<Rightarrow> (readErr fl, if content fl = [] then w else Write w (content fl)))"

section \<open>Writing the content (the server with \<open>resolveImportPath\<close>)\<close>

text \<open>
  \<open>writeStdLibGo\<close>: the error of \<open>os.Open\<close> is assigned and never read, so that a
  failed open leaves \<open>f\<close> nil and goes on to \<open>io.Copy\<close>. (\<open>f.Close()\<close> on a nil
  file returns an error that is dropped. The path printed on standard output is not part
  of the model.)
\<close>

definition writeStdLibGo :: "env \<Rightarrow> string \<Rightarrow> response \<Rightarrow> error option \<times> response" where
  "writeStdLibGo env sourcePath w =
     (case goEnvGOROOT env of
        Inl err \<Rightarrow> (Some err, w)
      | Inr goRoot \<Rightarrow>
          (let f = (case osOpen env (filepathJoin env [stringsTrimSpace env goRoot, ''src'', sourcePath]) of
                      Inl err \<Rightarrow> None
                    | Inr fl \<Rightarrow> Some fl)
           in ioCopy w f))"

text \<open>\<open>writeSourceGo\<close> of the server with \<open>resolveImportPath\<close>: download the module,
  open \<open>path\<close> below its directory, copy.\<close>

definition writeSourceGo :: "env \<Rightarrow> string \<Rightarrow> string \<Rightarrow> string \<Rightarrow> response \<Rightarrow> error option \<times> response" where
  "writeSourceGo env repo revision path w =
     (let (stdOut, exitErr) = runGoModDownload env (repo @ ''@'' @ revision) in
      case jsonUnmarshal env stdOut of
        Inl err \<Rightarrow> (Some err, w)
      | Inr info \<Rightarrow>
          (case exitErr of
             Some e \<Rightarrow> (Some (Errorf info e), w)
           | None \<Rightarrow>
               (case osOpen env (filepathJoin env [Dir info, path]) of
                  Inl err \<Rightarrow> (Some err, w)
                | Inr fl \<Rightarrow> ioCopy w (Some fl))))"

text \<open>\<open>(*SourceSpec).writeContent\<close>.\<close>

definition writeContent :: "env \<Rightarrow> SourceSpec \<Rightarrow> string \<Rightarrow> response \<Rightarrow> error option \<times> response" where
  "writeContent env s revision w =
     (if Repo s = [] then writeStdLibGo env (RelativePath s) w
      else
        (let rev0 = Revision s;
             rev1 = (if rev0 = [] then revision else rev0);
             rev2 = (if rev1 = [] then ''latest'' else rev1)
         in writeSourceGo env (Repo s) rev2 (RelativePath s) w))"

text \<open>
  \<open>handleSourceGo\<close> of the server with \<open>resolveImportPath\<close>. \<open>q\<close> is
  \<open>req.URL.Query().Get\<close>, which gives the empty string for an absent parameter. The
  result is \<open>Inr\<close> of the response when the handler returns and \<open>Inl\<close> when a panic
  leaves it. Logging is not part of the model.
\<close>

definition handleSourceGo :: "env \<Rightarrow> (string \<Rightarrow> string) \<Rightarrow> response \<Rightarrow> error + response" where
  "handleSourceGo env q w =
     (let function = q ''function''; revision0 = q ''revision''; path = q ''path'' in
      if path = [] then Inr (httpError w ''missing path'' 400)
      else
        (let revision = (if revision0 = [] then ''latest'' else revision0) in
         case resolveImportPath function path of
           Inl err \<Rightarrow>
             (if err = PanicSliceBounds then Inl err
              else Inr (httpError w ''error resolving import path'' 500))
         | Inr spec \<Rightarrow>
             (case writeContent env spec revision w of
                (Some err, w1) \<Rightarrow> Inr (httpError w1 ''error retrieving source code'' 500)
              | (None, w1) \<Rightarrow> Inr w1)))"

section \<open>Finding the file in the module (the server that takes \<open>repo\<close>)\<close>

text \<open>
  The callback of \<open>filepath.WalkDir\<close>. Its state is the captured variable
  \<open>foundFile\<close> and the lines \<open>found relPath\<close> printed so far (the relative paths
  only, latest last). \<open>path[prefixLen+1:]\<close> panics when \<open>path\<close> is shorter than
  \<open>prefixLen+1\<close>.
\<close>

record walkState =
  foundFile :: string
  printed :: "string list"

definition walkFn :: "nat \<Rightarrow> string \<Rightarrow> dirEntry \<Rightarrow> walkState \<Rightarrow> error + walkState" where
  "walkFn prefixLen sourcePath d st =
     (if entryIsDir d then Inr st
      else if length (entryPath d) < prefixLen + 1 then Inl PanicSliceBounds
      else
        (let relPath = drop (prefixLen + 1) (entryPath d) in
         if HasSuffix sourcePath relPath then
           (let st1 = st\<lparr>printed := printed st @ [relPath]\<rparr> in
            if length (foundFile st1) < length relPath
            then Inr (st1\<lparr>foundFile := relPath\<rparr>) else Inr st1)
         else Inr st))"

fun walkDirLoop :: "nat \<Rightarrow> string \<Rightarrow> dirEntry list \<Rightarrow> walkState \<Rightarrow> error + walkState" where
  "walkDirLoop prefixLen sourcePath [] st = Inr st"
| "walkDirLoop prefixLen sourcePath (d # ds) st =
     (case walkFn prefixLen sourcePath d st of
        Inl err \<Rightarrow> Inl err
      | Inr st1 \<Rightarrow> walkDirLoop prefixLen sourcePath ds st1)"

text \<open>
  The search of \<open>writeSourceGo\<close> for "the file with longest prefix match": the walk
  over the module directory \<open>dir\<close>, whose callbacks are \<open>entries\<close>, and the test
  that ends with \<open>io.EOF\<close> when \<open>foundFile\<close> is still empty.
\<close>

definition findFile :: "dirEntry list \<Rightarrow> string \<Rightarrow> string \<Rightarrow> error + string" where
  "findFile entries dir sourcePath =
     (case walkDirLoop (length dir) sourcePath entries \<lparr>foundFile = [], printed = []\<rparr> of
        Inl err \<Rightarrow> Inl err
      | Inr st \<Rightarrow> if foundFile st = [] then Inl EOF else Inr (foundFile st))"

text \<open>
  The first lines of \<open>writeSourceGo\<close>: when the source path lies in a module cache
  (\<open>/pkg/mod/module@revision/...\<close>), the module, the revision and the rest of the path
  for the recursive call. \<open>None\<close> when the path is not of that form, \<open>Some (Inl _)\<close>
  when \<open>depPath[posAt+1 : posEnd]\<close> panics, which it does when no \<open>"/"\<close> follows the
  \<open>"@"\<close> and \<open>posEnd\<close> is \<open>posAt - 1 > 0\<close>. The other slices are in range.
\<close>

definition pkgModDep :: "string \<Rightarrow> (error + string \<times> string \<times> string) option" where
  "pkgModDep sourcePath =
     (let pkgModPath = ''/pkg/mod/''; i = Index sourcePath pkgModPath in
      if 0 < i then
        (let depPath = drop (length pkgModPath + nat i) sourcePath;
             posAt = Index depPath ''@''
         in if 0 < posAt then
              (let posEnd = posAt + Index (drop (nat posAt) depPath) ''/'' in
               if 0 < posEnd then
                 (if posEnd < posAt + 1 then Some (Inl PanicSliceBounds)
                  else Some (Inr (take (nat posAt) depPath,
                                  take (nat posEnd - (nat posAt + 1)) (drop (nat posAt + 1) depPath),
                                  drop (nat posEnd) depPath)))
               else None)
            else None)
      else None)"

text \<open>
  \<open>writeSourceGo\<close> of the server that takes \<open>repo\<close>: the recursion for a source
  path in a module cache, then download, search, open and copy. The recursive call is on
  a strictly shorter source path.
\<close>

function writeSourceGo_walk ::
  "env \<Rightarrow> string \<Rightarrow> string \<Rightarrow> string \<Rightarrow> response \<Rightarrow> error option \<times> response" where
  "writeSourceGo_walk env repo revision sourcePath w =
     (case pkgModDep sourcePath of
        Some (Inl err) \<Rightarrow> (Some err, w)
      | Some (Inr (module, revision1, rest)) \<Rightarrow> writeSourceGo_walk env module revision1 rest w
      | None \<Rightarrow>
          (let (stdOut, exitErr) = runGoModDownload env (repo @ ''@'' @ revision) in
           case jsonUnmarshal env stdOut of
             Inl err \<Rightarrow> (Some err, w)
           | Inr info \<Rightarrow>
               (case exitErr of
                  Some e \<Rightarrow> (Some (Errorf info e), w)
                | None \<Rightarrow>
                    (case findFile (walkDir env (Dir info)) (Dir info) sourcePath of
                       Inl err \<Rightarrow> (Some err, w)
                     | Inr found \<Rightarrow>
                         (case osOpen env (filepathJoin env [Dir info, found]) of
                            Inl err \<Rightarrow> (Some err, w)
                          | Inr fl \<Rightarrow> ioCopy w (Some fl))))))"
  by pat_completeness auto
termination
proof (relation "measure (\<lambda>(env, repo, revision, sourcePath, w). length sourcePath)")
  show "wf (measure (\<lambda>(env, repo, revision, sourcePath, w). length sourcePath))"
    by simp
next
  fix env :: env and repo revision sourcePath :: string and w :: response
    and x2 x2a module y revision1 rest
  assume dep: "pkgModDep sourcePath = Some x2" and x2: "x2 = Inr x2a"
    and x2a: "(module, y) = x2a" and y: "(revision1, rest) = y"
  define i where "i = Index sourcePath ''/pkg/mod/''"
  define dp where "dp = drop (length ''/pkg/mod/'' + nat i) sourcePath"
  define a where "a = Index dp ''@''"
  define b where "b = a + Index (drop (nat a) dp) ''/''"
  have "pkgModDep sourcePath =
      (if 0 < i then
         if 0 < a then
           if 0 < b then
             (if b < a + 1 then Some (Inl PanicSliceBounds)
              else Some (Inr (take (nat a) dp,
                              take (nat b - (nat a + 1)) (drop (nat a + 1) dp),
                              drop (nat b) dp)))
           else None
         else None
       else None)"
    unfolding pkgModDep_def Let_def i_def dp_def a_def b_def by (rule refl)
  with dep x2 x2a y have i: "0 < i" and rest: "rest = drop (nat b) dp"
    by (auto split: if_splits)
  from i have "sourcePath \<noteq> []"
    unfolding i_def by (cases sourcePath) (auto split: if_splits)
  moreover have "length rest \<le> length sourcePath - 9"
    unfolding rest dp_def by simp
  ultimately have "length rest < length sourcePath"
    by (cases sourcePath) auto
  then show "((env, module, revision1, rest, w), (env, repo, revision, sourcePath, w))
      \<in> measure (\<lambda>(env, repo, revision, sourcePath, w). length sourcePath)"
    by simp
qed

text \<open>
  \<open>handleSourceGo\<close> of the server that takes \<open>repo\<close>. After the content has been
  written without error, the handler writes \<open>"hello\n"\<close>.
\<close>

definition handleSourceGo_repo :: "env \<Rightarrow> (string \<Rightarrow> string) \<Rightarrow> response \<Rightarrow> error + response" where
  "handleSourceGo_repo env q w =
     (let repo = q ''repo''; revision0 = q ''revision''; path = q ''path'' in
      if repo = [] then Inr (httpError w ''missing repo'' 400)
      else if path = [] then Inr (httpError w ''missing path'' 400)
      else
        (let revision = (if revision0 = [] then ''latest'' else revision0) in
         case writeSourceGo_walk env repo revision path w of
           (Some err, w1) \<Rightarrow>
             (if err = PanicSliceBounds then Inl err
              else Inr (httpError w1 ''error receiving source code'' 500))
         | (None, w1) \<Rightarrow> Inr (Write w1 (''hello'' @ [CHR 0x0A]))))"

section \<open>An example environment\<close>

text \<open>
  A world to run the servers in: \<open>go mod download\<close> succeeds and reports the directory
  \<open>/cache/module@revision\<close>, every module directory holds the one file
  \<open>capture_metrics.go\<close>, and the only file that can be opened is that file of
  \<open>github.com/felixge/httpsnoop@v1.0.3\<close>.
\<close>

definition exampleEnv :: env where
  "exampleEnv =
     \<lparr>goEnvGOROOT = Inr (''/usr/local/go'' @ [CHR 0x0A]),
      runGoModDownload = (\<lambda>arg. (arg, None)),
      jsonUnmarshal = (\<lambda>out. Inr \<lparr>Path = [], Version = [], Query = [], Info = [], GoMod = [],
                                    Zip = [], Dir = ''/cache/'' @ out, Sum = [], GoModSum = []\<rparr>),
      walkDir = (\<lambda>root. [\<lparr>entryPath = root, entryIsDir = True\<rparr>,
                          \<lparr>entryPath = root @ ''/capture_metrics.go'', entryIsDir = False\<rparr>]),
      osOpen = (\<lambda>p. if p = ''/cache/github.com/felixge/httpsnoop@v1.0.3/capture_metrics.go''
                     then Inr \<lparr>content = ''package httpsnoop'', readErr = None\<rparr>
                     else Inl (External ''no such file or directory'')),
      filepathJoin = (\<lambda>elems. Join elems ''/''),
      stringsTrimSpace = (\<lambda>s. takeWhile (\<lambda>c. c \<noteq> CHR 0x0A) s)\<rparr>"

definition exampleQuery :: "string \<Rightarrow> string" where
  "exampleQuery k =
     (if k = ''repo'' then ''github.com/felixge/httpsnoop''
      else if k = ''revision'' then ''v1.0.3''
      else if k = ''path'' then ''/home/runner/work/capture_metrics.go''
      else [])"

definition emptyResponse :: response where
  "emptyResponse = \<lparr>status = None, body = []\<rparr>"

section \<open>Notions used to state the properties\<close>

text \<open>
  The occurrence of a string of length \<open>n\<close> at index \<open>pos\<close> of \<open>s\<close> is a whole
  path segment: it starts the string or follows a \<open>"/"\<close>, and it ends the string or is
  followed by one.
\<close>

definition wholeSegmentAt :: "string \<Rightarrow> nat \<Rightarrow> nat \<Rightarrow> bool" where
  "wholeSegmentAt s pos n =
     ((pos = 0 \<or> s ! (pos - 1) = CHR ''/'') \<and> (pos + n = length s \<or> s ! (pos + n) = CHR ''/''))"

text \<open>
  \<open>resolveImportPath\<close> leaves through its standard-library branch, the
  \<open>return &SourceSpec{RelativePath: path[pos:]}\<close>: the scan did not return, the
  function name is not empty, its first part has no \<open>"."\<close> and occurs in the path.
\<close>

definition stdLibResult :: "string \<Rightarrow> string \<Rightarrow> bool" where
  "stdLibResult function path =
     (case scanLoop path (Split path CHR ''/'') 0 zeroSpec of
        Return spec \<Rightarrow> False
      | Fallthrough spec pathParts \<Rightarrow>
          function \<noteq> [] \<and> \<not> Contains (functionParts function ! 0) ''.''
          \<and> 0 \<le> LastIndex path (functionParts function ! 0))"

text \<open>The path of a visited entry relative to the walked directory:
  \<open>path[prefixLen+1:]\<close>.\<close>

definition relPathOf :: "nat \<Rightarrow> dirEntry \<Rightarrow> string" where
  "relPathOf prefixLen d = drop (prefixLen + 1) (entryPath d)"

text \<open>The two tests of the walk's callback that an entry passes to be printed as
  \<open>found\<close> and compared with \<open>foundFile\<close>: it is no directory, and the source path has
  its relative path as a suffix.\<close>

definition accepted :: "nat \<Rightarrow> string \<Rightarrow> dirEntry \<Rightarrow> bool" where
  "accepted prefixLen sourcePath d =
     (\<not> entryIsDir d \<and> HasSuffix sourcePath (relPathOf prefixLen d))"

text \<open>The match of the specification: the recorded path ends with the relative path,
  and the character before the match, if there is one, is a path separator.\<close>

definition segmentAlignedSuffix :: "string \<Rightarrow> string \<Rightarrow> bool" where
  "segmentAlignedSuffix recordedPath relPath =
     (HasSuffix recordedPath relPath \<and>
      (length relPath = length recordedPath \<or>
       recordedPath ! (length recordedPath - length relPath - 1) = CHR ''/''))"

section \<open>Facts about the string functions\<close>

lemma Split_not_Nil: "Split s sep \<noteq> []"
  by (induction s) (auto split: list.splits)

lemma Join_Split: "Join (Split s sep) [sep] = s"
proof (induction s)
  case Nil then show ?case by simp
next
  case (Cons c s)
  obtain p ps where ps: "Split s sep = p # ps"
    using Split_not_Nil[of s sep] by (cases "Split s sep") auto
  show ?case
  proof (cases "c = sep")
    case True
    with Cons ps show ?thesis by simp
  next
    case False
    with Cons ps show ?thesis by (cases ps) auto
  qed
qed

lemma Split_no_sep: "p \<in> set (Split s sep) \<Longrightarrow> sep \<notin> set p"
proof (induction s arbitrary: p)
  case Nil then show ?case by simp
next
  case (Cons c s)
  then show ?case by (auto split: if_splits list.splits)
qed

lemma HasPrefix_Nil [simp]: "HasPrefix s []"
  by (simp add: HasPrefix_def)

lemma HasPrefix_Cons_Cons [simp]: "HasPrefix (c # s) (d # t) = (c = d \<and> HasPrefix s t)"
  by (auto simp: HasPrefix_def)

lemma HasPrefix_Nil_left [simp]: "HasPrefix [] t = (t = [])"
  by (auto simp: HasPrefix_def)

lemma HasPrefix_iff_prefix: "HasPrefix s pre = prefix pre s"
  by (auto simp: HasPrefix_def prefix_def) (metis append_take_drop_id)

lemma HasSuffix_iff_suffix: "HasSuffix s suf = suffix suf s"
  by (auto simp: HasSuffix_def suffix_def) (metis append_take_drop_id)

lemma LastIndex_lower: "- 1 \<le> LastIndex s sub"
  by (induction s) (auto simp: Let_def)

lemma LastIndex_upper: "LastIndex s sub \<le> int (length s)"
  by (induction s) (auto simp: Let_def)

lemma LastIndex_neg: "LastIndex s sub < 0 \<Longrightarrow> LastIndex s sub = - 1"
  using LastIndex_lower[of s sub] by linarith

lemma LastIndex_occurs:
  "LastIndex s sub = int i \<Longrightarrow> take (length sub) (drop i s) = sub"
proof (induction s arbitrary: i)
  case Nil then show ?case by (auto split: if_splits)
next
  case (Cons c s)
  show ?case
  proof (cases "0 \<le> LastIndex s sub")
    case True
    with Cons.prems have "LastIndex s sub = int i - 1" by (simp add: Let_def)
    moreover from this True have "0 < i" by linarith
    ultimately have "LastIndex s sub = int (i - 1)" by simp
    from Cons.IH[OF this] \<open>0 < i\<close> show ?thesis by (cases i) auto
  next
    case False
    with Cons.prems have "i = 0" "HasPrefix (c # s) sub"
      by (auto simp: Let_def split: if_splits)
    then show ?thesis by (simp add: HasPrefix_def)
  qed
qed

lemma LastIndex_none:
  "LastIndex s sub < 0 \<Longrightarrow> j \<le> length s \<Longrightarrow> take (length sub) (drop j s) \<noteq> sub"
proof (induction s arbitrary: j)
  case Nil then show ?case by (auto split: if_splits)
next
  case (Cons c s)
  from Cons.prems(1) have neg: "LastIndex s sub < 0" and np: "\<not> HasPrefix (c # s) sub"
    by (auto simp: Let_def split: if_splits)
  show ?case
  proof (cases j)
    case 0
    with np show ?thesis by (auto simp: HasPrefix_def)
  next
    case (Suc j')
    with Cons.IH[OF neg, of j'] Cons.prems(2) show ?thesis by simp
  qed
qed

lemma LastIndex_last:
  "LastIndex s sub = int i \<Longrightarrow> i < j \<Longrightarrow> j \<le> length s \<Longrightarrow> take (length sub) (drop j s) \<noteq> sub"
proof (induction s arbitrary: i j)
  case Nil then show ?case by simp
next
  case (Cons c s)
  from Cons.prems obtain j' where j': "j = Suc j'" by (cases j) auto
  show ?case
  proof (cases "0 \<le> LastIndex s sub")
    case True
    with Cons.prems have "LastIndex s sub = int i - 1" by (simp add: Let_def)
    moreover from this True have "0 < i" by linarith
    ultimately have "LastIndex s sub = int (i - 1)" by simp
    from Cons.IH[OF this, of j'] Cons.prems j' \<open>0 < i\<close> show ?thesis by auto
  next
    case False
    have "take (length sub) (drop j' s) \<noteq> sub"
      using LastIndex_none[of s sub j'] False Cons.prems j' by simp
    then show ?thesis using j' by simp
  qed
qed

lemma LastIndex_single_none: "c \<notin> set s \<Longrightarrow> LastIndex s [c] = - 1"
  by (induction s) (auto simp: Let_def)

lemma LastIndex_single_mem: "c \<in> set s \<Longrightarrow> 0 \<le> LastIndex s [c]"
  by (induction s) (auto simp: Let_def)

lemma LastIndex_single: "c \<notin> set b \<Longrightarrow> LastIndex (a @ c # b) [c] = int (length a)"
proof (induction a)
  case Nil
  then show ?case by (simp add: Let_def LastIndex_single_none)
next
  case (Cons x a)
  then show ?case by (simp add: Let_def)
qed

lemma Index_single_none: "c \<notin> set s \<Longrightarrow> Index s [c] = - 1"
  by (induction s) (auto simp: Let_def)

lemma Index_single_mem: "c \<in> set s \<Longrightarrow> 0 \<le> Index s [c]"
  by (induction s) (auto simp: Let_def)

lemma Contains_single: "Contains s [c] = (c \<in> set s)"
proof (cases "c \<in> set s")
  case True
  then show ?thesis using Index_single_mem[of c s] by (simp add: Contains_def)
next
  case False
  then show ?thesis using Index_single_none[of c s] by (simp add: Contains_def)
qed

section \<open>The version-specifier scan\<close>

declare scanLoop.simps [simp del]

lemma scanLoop_no_marker:
  "\<forall>j. idx \<le> j \<and> j < length pathParts \<longrightarrow> CHR ''@'' \<notin> set (pathParts ! j) \<Longrightarrow>
   scanLoop path pathParts idx spec = Fallthrough spec pathParts"
proof (induction path pathParts idx spec rule: scanLoop.induct)
  case (1 path pathParts idx spec)
  show ?case
  proof (cases "idx < length pathParts")
    case False
    then show ?thesis by (subst scanLoop.simps) simp
  next
    case True
    with "1.prems" have no: "CHR ''@'' \<notin> set (pathParts ! idx)" by simp
    then have neg: "LastIndex (pathParts ! idx) ''@'' = - 1" by (rule LastIndex_single_none)
    have "scanLoop path pathParts (idx + 1) spec = Fallthrough spec pathParts"
      using "1.IH"[OF True refl] neg "1.prems" by simp
    then show ?thesis using True neg by (subst scanLoop.simps) simp
  qed
qed

lemma scanLoop_marker:
  assumes "idx \<le> i" and "i < length pathParts"
    and "pathParts ! i = a @ CHR ''@'' # b" and "CHR ''@'' \<notin> set b"
    and "\<forall>j. idx \<le> j \<and> j < i \<longrightarrow> CHR ''@'' \<notin> set (pathParts ! j)"
  shows "scanLoop path pathParts idx spec =
     (if \<not> HasPrefix path ''/''
      then Return (spec\<lparr>Revision := b, RelativePath := Join (drop (Suc i) pathParts) ''/'',
                         Repo := Join (take i pathParts @ [a]) ''/''\<rparr>)
      else Fallthrough (spec\<lparr>Revision := b, RelativePath := Join (drop (Suc i) pathParts) ''/''\<rparr>)
                       (pathParts[i := a]))"
  using assms
proof (induction path pathParts idx spec rule: scanLoop.induct)
  case (1 path pathParts idx spec)
  from "1.prems" have lt: "idx < length pathParts" by simp
  show ?case
  proof (cases "idx = i")
    case True
    have pos: "LastIndex (pathParts ! idx) ''@'' = int (length a)"
      using "1.prems" True by (simp add: LastIndex_single)
    have tk: "take (Suc i) (pathParts[i := a]) = take i pathParts @ [a]"
      using "1.prems"(2) by (simp add: take_Suc_conv_app_nth)
    show ?thesis
      using True lt pos "1.prems"(3) tk by (subst scanLoop.simps) (simp add: Let_def)
  next
    case False
    with "1.prems" have no: "CHR ''@'' \<notin> set (pathParts ! idx)" by simp
    then have neg: "LastIndex (pathParts ! idx) ''@'' = - 1" by (rule LastIndex_single_none)
    have "scanLoop path pathParts (idx + 1) spec =
     (if \<not> HasPrefix path ''/''
      then Return (spec\<lparr>Revision := b, RelativePath := Join (drop (Suc i) pathParts) ''/'',
                         Repo := Join (take i pathParts @ [a]) ''/''\<rparr>)
      else Fallthrough (spec\<lparr>Revision := b, RelativePath := Join (drop (Suc i) pathParts) ''/''\<rparr>)
                       (pathParts[i := a]))"
      using "1.IH"[OF lt refl] neg "1.prems" False by simp
    then show ?thesis using lt neg by (subst scanLoop.simps) simp
  qed
qed

lemma set_Split: "(\<Union>p \<in> set (Split s sep). set p) = set s - {sep}"
proof (induction s)
  case Nil then show ?case by simp
next
  case (Cons c s)
  obtain p ps where ps: "Split s sep = p # ps"
    using Split_not_Nil[of s sep] by (cases "Split s sep") auto
  with Cons show ?case by auto
qed

lemma marker_in_segment: "(\<exists>j < length (Split s sep). c \<in> set (Split s sep ! j)) = (c \<in> set s \<and> c \<noteq> sep)"
proof -
  have "(\<exists>j < length (Split s sep). c \<in> set (Split s sep ! j)) = (c \<in> (\<Union>p \<in> set (Split s sep). set p))"
    by (metis UN_iff in_set_conv_nth)
  then show ?thesis by (auto simp: set_Split)
qed

lemma scanLoop_cases:
  obtains (none) "\<forall>j. idx \<le> j \<and> j < length pathParts \<longrightarrow> CHR ''@'' \<notin> set (pathParts ! j)"
      "scanLoop path pathParts idx spec = Fallthrough spec pathParts"
  | (marker) i a b where "idx \<le> i" "i < length pathParts"
      "pathParts ! i = a @ CHR ''@'' # b" "CHR ''@'' \<notin> set b"
      "\<forall>j. idx \<le> j \<and> j < i \<longrightarrow> CHR ''@'' \<notin> set (pathParts ! j)"
      "scanLoop path pathParts idx spec =
        (if \<not> HasPrefix path ''/''
         then Return (spec\<lparr>Revision := b, RelativePath := Join (drop (Suc i) pathParts) ''/'',
                         Repo := Join (take i pathParts @ [a]) ''/''\<rparr>)
         else Fallthrough (spec\<lparr>Revision := b, RelativePath := Join (drop (Suc i) pathParts) ''/''\<rparr>)
                       (pathParts[i := a]))"
proof (cases "\<exists>j. idx \<le> j \<and> j < length pathParts \<and> CHR ''@'' \<in> set (pathParts ! j)")
  case False
  then have no: "\<forall>j. idx \<le> j \<and> j < length pathParts \<longrightarrow> CHR ''@'' \<notin> set (pathParts ! j)"
    by blast
  from none[OF no scanLoop_no_marker[OF no]] show ?thesis .
next
  case True
  define P where "P j = (idx \<le> j \<and> j < length pathParts \<and> CHR ''@'' \<in> set (pathParts ! j))" for j
  define i where "i = (LEAST j. P j)"
  from True have ex: "\<exists>j. P j" by (simp add: P_def)
  then have Pi: "P i" unfolding i_def by (metis LeastI)
  have least: "\<not> P j" if "j < i" for j
    using that not_less_Least unfolding i_def by blast
  from Pi obtain a b where ab: "pathParts ! i = a @ CHR ''@'' # b" "CHR ''@'' \<notin> set b"
    unfolding P_def by (meson split_list_last)
  have before: "\<forall>j. idx \<le> j \<and> j < i \<longrightarrow> CHR ''@'' \<notin> set (pathParts ! j)"
  proof (intro allI impI)
    fix j assume j: "idx \<le> j \<and> j < i"
    with least[of j] Pi show "CHR ''@'' \<notin> set (pathParts ! j)" by (auto simp: P_def)
  qed
  from Pi have i1: "idx \<le> i" and i2: "i < length pathParts" by (auto simp: P_def)
  from marker[OF i1 i2 ab before scanLoop_marker[OF i1 i2 ab before]] show ?thesis .
qed

text \<open>
  Claim C1. For every \<open>rawPath\<close> that does not begin with \<open>"/"\<close> and whose first
  segment with an \<open>"@"\<close> is the one at index \<open>i\<close>, \<open>resolveImportPath\<close> returns at
  once for every symbol, the empty one included: \<open>Repo\<close> is the join of the segments
  \<open>0..i\<close>, the \<open>i\<close>-th cut before its last \<open>"@"\<close>; \<open>Revision\<close> is what follows that
  last \<open>"@"\<close> in the segment; \<open>RelativePath\<close> is the join of the segments after
  \<open>i\<close>. The segment is written \<open>a @ "@" @ b\<close> with no \<open>"@"\<close> in \<open>b\<close>.
\<close>

theorem C1_direct_form:
  assumes "\<not> HasPrefix rawPath ''/''"
    and "i < length (Split rawPath CHR ''/'')"
    and "Split rawPath CHR ''/'' ! i = a @ CHR ''@'' # b" and "CHR ''@'' \<notin> set b"
    and "\<forall>j<i. CHR ''@'' \<notin> set (Split rawPath CHR ''/'' ! j)"
  shows "resolveImportPath symbol rawPath =
           Inr \<lparr>Repo = Join (take i (Split rawPath CHR ''/'') @ [a]) ''/'',
                RelativePath = Join (drop (Suc i) (Split rawPath CHR ''/'')) ''/'',
                Revision = b\<rparr>"
proof -
  have "scanLoop rawPath (Split rawPath CHR ''/'') 0 zeroSpec =
     Return (zeroSpec\<lparr>Revision := b, RelativePath := Join (drop (Suc i) (Split rawPath CHR ''/'')) ''/'',
                         Repo := Join (take i (Split rawPath CHR ''/'') @ [a]) ''/''\<rparr>)"
    using scanLoop_marker[of 0 i "Split rawPath CHR ''/''" a b rawPath zeroSpec] assms by simp
  then show ?thesis by (simp add: resolveImportPath_def zeroSpec_def)
qed

theorem C1_direct_form_witness:
  "resolveImportPath [] ''github.com/aws/aws-sdk-go@v1.44.163/aws/endpoints/defaults.go'' =
     Inr \<lparr>Repo = ''github.com/aws/aws-sdk-go'', RelativePath = ''aws/endpoints/defaults.go'',
          Revision = ''v1.44.163''\<rparr>"
proof -
  let ?p = "''github.com/aws/aws-sdk-go@v1.44.163/aws/endpoints/defaults.go''"
  have sp: "Split ?p CHR ''/'' =
    [''github.com'', ''aws'', ''aws-sdk-go@v1.44.163'', ''aws'', ''endpoints'', ''defaults.go'']"
    by simp
  have h1: "\<not> HasPrefix ?p ''/''" by simp
  have h2: "2 < length (Split ?p CHR ''/'')" unfolding sp by simp
  have h3: "Split ?p CHR ''/'' ! 2 = ''aws-sdk-go'' @ CHR ''@'' # ''v1.44.163''" unfolding sp by simp
  have h4: "CHR ''@'' \<notin> set ''v1.44.163''" by simp
  have h5: "\<forall>j<2. CHR ''@'' \<notin> set (Split ?p CHR ''/'' ! j)"
    unfolding sp by (simp add: numeral_2_eq_2 less_Suc_eq)
  show ?thesis using C1_direct_form[OF h1 h2 h3 h4 h5, of "[]"] unfolding sp by simp
qed



section \<open>Failures of \<open>resolveImportPath\<close>\<close>

lemma scanLoop_Return_iff:
  "(\<exists>spec. scanLoop path (Split path CHR ''/'') 0 zeroSpec = Return spec) =
     (\<not> HasPrefix path ''/'' \<and> CHR ''@'' \<in> set path)"
proof (cases rule: scanLoop_cases[of 0 "Split path CHR ''/''" path zeroSpec])
  case none
  then have "\<not> (\<exists>j < length (Split path CHR ''/''). CHR ''@'' \<in> set (Split path CHR ''/'' ! j))"
    by auto
  then have "CHR ''@'' \<notin> set path" by (simp add: marker_in_segment)
  with none show ?thesis by simp
next
  case (marker i a b)
  then have "\<exists>j < length (Split path CHR ''/''). CHR ''@'' \<in> set (Split path CHR ''/'' ! j)"
    by (intro exI[of _ i]) simp
  then have "CHR ''@'' \<in> set path" by (simp add: marker_in_segment)
  with marker show ?thesis by simp
qed

lemma resolveImportPath_FunctionEmpty_iff:
  "(resolveImportPath function path = Inl FunctionEmpty) =
     (function = [] \<and> (HasPrefix path ''/'' \<or> CHR ''@'' \<notin> set path))"
proof (cases "scanLoop path (Split path CHR ''/'') 0 zeroSpec")
  case (Return spec)
  with scanLoop_Return_iff[of path] show ?thesis
    by (auto simp: resolveImportPath_def)
next
  case (Fallthrough spec pathParts)
  with scanLoop_Return_iff[of path] have "HasPrefix path ''/'' \<or> CHR ''@'' \<notin> set path"
    by auto
  with Fallthrough show ?thesis
    by (auto simp: resolveImportPath_def Let_def)
qed

lemma resolveImportPath_errors:
  assumes "resolveImportPath fn path = Inl e"
  shows "e = FunctionEmpty \<or> e = PanicSliceBounds"
  using assms
  by (auto simp: resolveImportPath_def Let_def split: scan.splits if_splits)

text \<open>
  Claim C2. \<open>resolveImportPath\<close> fails exactly when the symbol is empty and the direct
  form did not apply, and has no other way to fail; in particular it does not slice out
  of range when the symbol has more qualifier parts than the path has segments. The
  first half holds (\<open>resolveImportPath_FunctionEmpty_iff\<close>), and the only other
  failure is the panic (\<open>resolveImportPath_errors\<close>). The second does not: for
  the symbol \<open>github.com/a/b/c/d.F\<close> and the path \<open>x.go\<close>, two qualifier parts
  remain after the repository and the path has one segment, so \<open>startIndex\<close> is
  \<open>1 - 2 - 1 = -2\<close> and \<open>pathParts[startIndex:]\<close> panics.
\<close>

theorem C2_slice_bounds_panic:
  "resolveImportPath ''github.com/a/b/c/d.F'' ''x.go'' = Inl PanicSliceBounds"
  by code_simp


section \<open>The standard-library branch\<close>

lemma scanLoop_not_direct:
  assumes "HasPrefix path ''/'' \<or> CHR ''@'' \<notin> set path"
  obtains spec pathParts where
    "scanLoop path (Split path CHR ''/'') 0 zeroSpec = Fallthrough spec pathParts"
  using assms scanLoop_Return_iff[of path]
  by (cases "scanLoop path (Split path CHR ''/'') 0 zeroSpec") auto

lemma Split_first_prefix: "HasPrefix s (Split s sep ! 0)"
proof (cases s)
  case Nil then show ?thesis by simp
next
  case (Cons c t)
  obtain p ps where ps: "Split t sep = p # ps"
    using Split_not_Nil[of t sep] by (cases "Split t sep") auto
  have "HasPrefix t p" if "c \<noteq> sep"
    using ps
  proof (induction t arbitrary: p ps)
    case Nil then show ?case by simp
  next
    case (Cons d t)
    obtain q qs where qs: "Split t sep = q # qs"
      using Split_not_Nil[of t sep] by (cases "Split t sep") auto
    from Cons.prems qs Cons.IH[OF qs] show ?case by (auto split: if_splits)
  qed
  with Cons ps show ?thesis by auto
qed

lemma Split_append_sep: "Split (a @ sep # b) sep = Split a sep @ Split b sep"
proof (induction a)
  case Nil
  then show ?case by simp
next
  case (Cons c a)
  obtain p ps where ps: "Split a sep = p # ps"
    using Split_not_Nil[of a sep] by (cases "Split a sep") auto
  with Cons show ?case by simp
qed

lemma Split_no_sep_id: "sep \<notin> set t \<Longrightarrow> Split t sep = [t]"
  by (induction t) auto

lemma Join_Cons: "ys \<noteq> [] \<Longrightarrow> Join (x # ys) sep = x @ sep @ Join ys sep"
  by (cases ys) auto

lemma Split_segment_occurs: "seg \<in> set (Split t sep) \<Longrightarrow> \<exists>a b. t = a @ seg @ b"
proof (induction t arbitrary: seg)
  case Nil
  then show ?case by simp
next
  case (Cons c t)
  obtain p ps where ps: "Split t sep = p # ps"
    using Split_not_Nil[of t sep] by (cases "Split t sep") auto
  have first: "\<exists>b. t = p @ b"
    using Split_first_prefix[of t sep] ps HasPrefix_iff_prefix[of t p] by (auto simp: prefix_def)
  show ?case
  proof (cases "c = sep")
    case True
    with Cons.prems have "seg = [] \<or> seg \<in> set (Split t sep)" by auto
    then show ?thesis
    proof
      assume "seg = []"
      then show ?thesis by auto
    next
      assume "seg \<in> set (Split t sep)"
      from Cons.IH[OF this] obtain a b where "t = a @ seg @ b" by auto
      then have "c # t = (c # a) @ seg @ b" by simp
      then show ?thesis by blast
    qed
  next
    case False
    with Cons.prems ps have "seg = c # p \<or> seg \<in> set ps" by auto
    then show ?thesis
    proof
      assume s: "seg = c # p"
      from first obtain b where "t = p @ b" by auto
      with s have "c # t = [] @ seg @ b" by simp
      then show ?thesis by blast
    next
      assume "seg \<in> set ps"
      with ps have "seg \<in> set (Split t sep)" by simp
      from Cons.IH[OF this] obtain a b where "t = a @ seg @ b" by auto
      then have "c # t = (c # a) @ seg @ b" by simp
      then show ?thesis by blast
    qed
  qed
qed

lemma whole_segment_split:
  assumes x: "sep \<notin> set x" and pre: "pre = [] \<or> last pre = sep"
    and post: "post = [] \<or> hd post = sep"
  shows "\<exists>A B. Split (pre @ x @ post) sep = A @ x # B \<and> Join (x # B) [sep] = x @ post
           \<and> (\<forall>y\<in>set B. \<exists>a b. post = sep # a @ y @ b)"
proof -
  define B where "B = (if post = [] then [] else Split (tl post) sep)"
  define A where "A = (if pre = [] then [] else Split (butlast pre) sep)"
  have xp: "Split (x @ post) sep = x # B"
  proof (cases "post = []")
    case True
    then show ?thesis using x by (simp add: B_def Split_no_sep_id)
  next
    case False
    with post have "post = sep # tl post" by (cases post) auto
    then have "Split (x @ post) sep = Split x sep @ Split (tl post) sep"
      using Split_append_sep[of x sep "tl post"] by simp
    with False x show ?thesis by (simp add: B_def Split_no_sep_id)
  qed
  have all: "Split (pre @ x @ post) sep = A @ x # B"
  proof (cases "pre = []")
    case True
    then show ?thesis using xp by (simp add: A_def)
  next
    case False
    with pre have "pre = butlast pre @ [sep]" by (metis append_butlast_last_id)
    then have "pre @ x @ post = butlast pre @ sep # (x @ post)" by (metis append.assoc append_Cons append_Nil)
    then have "Split (pre @ x @ post) sep = Split (butlast pre) sep @ Split (x @ post) sep"
      by (simp only: Split_append_sep)
    with False xp show ?thesis by (simp add: A_def)
  qed
  have j: "Join (x # B) [sep] = x @ post"
  proof (cases "post = []")
    case True
    then show ?thesis by (simp add: B_def)
  next
    case False
    with post have p: "post = sep # tl post" by (cases post) auto
    have "B \<noteq> []" using False by (simp add: B_def Split_not_Nil)
    then have "Join (x # B) [sep] = x @ [sep] @ Join B [sep]" by (rule Join_Cons)
    also have "Join B [sep] = tl post" using False by (simp add: B_def Join_Split)
    finally show ?thesis using p by (metis append_Cons append_Nil)
  qed
  have occ: "\<forall>y\<in>set B. \<exists>a b. post = sep # a @ y @ b"
  proof
    fix y assume y: "y \<in> set B"
    then have ne: "post \<noteq> []" by (auto simp: B_def split: if_splits)
    with post have p: "post = sep # tl post" by (cases post) auto
    from y ne have "y \<in> set (Split (tl post) sep)" by (simp add: B_def)
    from Split_segment_occurs[OF this] obtain a b where "tl post = a @ y @ b" by auto
    with p have "post = sep # a @ y @ b" by simp
    then show "\<exists>a b. post = sep # a @ y @ b" by blast
  qed
  from all j occ show ?thesis by blast
qed

lemma functionParts_no_slash: "p \<in> set (functionParts fn) \<Longrightarrow> CHR ''/'' \<notin> set p"
proof -
  assume p: "p \<in> set (functionParts fn)"
  let ?parts = "Split fn CHR ''/''"
  have base: "\<And>q. q \<in> set ?parts \<Longrightarrow> CHR ''/'' \<notin> set q" by (rule Split_no_sep)
  show ?thesis
  proof (cases "0 \<le> Index (?parts ! (length ?parts - 1)) ''.''")
    case False
    with p have "p \<in> set ?parts" by (simp add: functionParts_def Let_def)
    then show ?thesis by (rule base)
  next
    case True
    with p have "p \<in> set (?parts[length ?parts - 1 :=
        take (nat (Index (?parts ! (length ?parts - 1)) ''.'')) (?parts ! (length ?parts - 1))])"
      by (simp add: functionParts_def Let_def)
    then have "p \<in> insert (take (nat (Index (?parts ! (length ?parts - 1)) ''.'')) (?parts ! (length ?parts - 1)))
        (set ?parts)"
      using set_update_subset_insert by fastforce
    then show ?thesis
    proof
      assume "p = take (nat (Index (?parts ! (length ?parts - 1)) ''.'')) (?parts ! (length ?parts - 1))"
      moreover have "?parts ! (length ?parts - 1) \<in> set ?parts"
        using Split_not_Nil[of fn "CHR ''/''"] by simp
      ultimately show ?thesis using base by (metis in_set_takeD)
    next
      assume "p \<in> set ?parts"
      then show ?thesis by (rule base)
    qed
  qed
qed

lemma functionParts_not_Nil: "functionParts fn \<noteq> []"
  using Split_not_Nil[of fn "CHR ''/''"] by (simp add: functionParts_def Let_def)


lemma last_whole_segment:
  assumes li: "LastIndex s x = int pos" and ws: "wholeSegmentAt s pos (length x)"
    and nosep: "CHR ''/'' \<notin> set x"
  shows "\<exists>j<length (Split s CHR ''/''). Split s CHR ''/'' ! j = x
            \<and> (\<forall>k. j < k \<and> k < length (Split s CHR ''/'') \<longrightarrow> Split s CHR ''/'' ! k \<noteq> x)
            \<and> drop pos s = Join (drop j (Split s CHR ''/'')) ''/''"
proof -
  let ?n = "length x"
  define pre where "pre = take pos s"
  define post where "post = drop (pos + ?n) s"
  have occ: "take ?n (drop pos s) = x" using li by (rule LastIndex_occurs)
  have le: "pos + ?n \<le> length s"
  proof -
    have "length (take ?n (drop pos s)) = ?n" using occ by simp
    moreover have "pos \<le> length s" using LastIndex_upper[of s x] li by simp
    ultimately show ?thesis by simp
  qed
  have dp: "drop pos s = x @ post"
  proof -
    have "take ?n (drop pos s) @ drop ?n (drop pos s) = drop pos s"
      by (rule append_take_drop_id)
    then have "x @ drop ?n (drop pos s) = drop pos s" by (simp only: occ)
    moreover have "drop ?n (drop pos s) = post" by (simp add: post_def add.commute)
    ultimately show ?thesis by simp
  qed
  have s: "s = pre @ x @ post"
  proof -
    have "take pos s @ drop pos s = s" by (rule append_take_drop_id)
    then show ?thesis by (simp only: dp pre_def)
  qed
  have lpre: "length pre = pos" using le by (simp add: pre_def)
  have p1: "pre = [] \<or> last pre = CHR ''/''"
  proof (cases "pos = 0")
    case True
    then show ?thesis by (simp add: pre_def)
  next
    case False
    with ws have "s ! (pos - 1) = CHR ''/''" by (simp add: wholeSegmentAt_def)
    moreover have "last pre = s ! (pos - 1)"
    proof -
      have "pre \<noteq> []" using False lpre by auto
      then have "last pre = pre ! (length pre - 1)" by (rule last_conv_nth)
      also have "\<dots> = s ! (pos - 1)" using False by (simp add: lpre) (simp add: pre_def)
      finally show ?thesis .
    qed
    ultimately show ?thesis by simp
  qed
  have p2: "post = [] \<or> hd post = CHR ''/''"
  proof (cases "pos + ?n = length s")
    case True
    then show ?thesis by (simp add: post_def)
  next
    case False
    with ws have "s ! (pos + ?n) = CHR ''/''" by (simp add: wholeSegmentAt_def)
    moreover have "hd post = s ! (pos + ?n)"
      using False le by (simp add: post_def hd_drop_conv_nth)
    ultimately show ?thesis by simp
  qed
  from whole_segment_split[OF nosep p1 p2] obtain A B where
    sp: "Split (pre @ x @ post) CHR ''/'' = A @ x # B"
    and jn: "Join (x # B) ''/'' = x @ post"
    and later: "\<forall>y\<in>set B. \<exists>a b. post = CHR ''/'' # a @ y @ b"
    by blast
  have segs: "Split s CHR ''/'' = A @ x # B" using sp s by simp
  have j1: "length A < length (Split s CHR ''/'')" by (simp add: segs)
  have j2: "Split s CHR ''/'' ! length A = x" by (simp add: segs)
  have j3: "drop pos s = Join (drop (length A) (Split s CHR ''/'')) ''/''"
    using dp jn by (simp add: segs)
  have j4: "\<forall>k. length A < k \<and> k < length (Split s CHR ''/'') \<longrightarrow> Split s CHR ''/'' ! k \<noteq> x"
  proof (intro allI impI notI)
    fix k assume k: "length A < k \<and> k < length (Split s CHR ''/'')"
      and eq: "Split s CHR ''/'' ! k = x"
    from k have kb: "k - length A - 1 < length B" by (auto simp: segs)
    from k have "Split s CHR ''/'' ! k = B ! (k - length A - 1)"
      by (simp add: segs nth_append nth_Cons')
    with eq kb have "x \<in> set B" by (metis nth_mem)
    with later obtain a b where post': "post = CHR ''/'' # a @ x @ b" by blast
    define i where "i = pos + ?n + 1 + length a"
    have s': "s = (pre @ x @ CHR ''/'' # a) @ x @ b" using s post' by simp
    have li': "length (pre @ x @ CHR ''/'' # a) = i" by (simp add: i_def lpre)
    have "drop i s = x @ b" using s' li' by (metis append_eq_conv_conj)
    then have "take ?n (drop i s) = x" by simp
    moreover have "pos < i" by (simp add: i_def)
    moreover have "i \<le> length s" using s' li' by (metis length_append le_add1)
    ultimately show False using LastIndex_last[OF li, of i] by simp
  qed
  from j1 j2 j3 j4 show ?thesis by blast
qed

text \<open>
  Claim C4, amended. For every non-empty symbol whose first qualifier part has no
  \<open>"."\<close>, when the direct form did not apply (the path begins with \<open>"/"\<close> or has no
  \<open>"@"\<close>) and the last occurrence of that part in \<open>rawPath\<close>, at index \<open>pos\<close>, is a
  whole path segment, \<open>resolveImportPath\<close> returns \<open>Repo\<close> and \<open>Revision\<close> empty and
  \<open>RelativePath\<close> the part of \<open>rawPath\<close> from \<open>pos\<close> on; that occurrence is the last
  segment of \<open>rawPath\<close> equal to the qualifier part, and \<open>RelativePath\<close> is the join of
  the segments from it on. (The code looks for the part with \<open>strings.LastIndex\<close> on the
  whole path; about a last occurrence that is not a whole segment this statement says
  nothing.)
\<close>

theorem C4_stdlib:
  assumes "symbol \<noteq> []"
    and "HasPrefix rawPath ''/'' \<or> CHR ''@'' \<notin> set rawPath"
    and "CHR ''.'' \<notin> set (functionParts symbol ! 0)"
    and "LastIndex rawPath (functionParts symbol ! 0) = int pos"
    and "wholeSegmentAt rawPath pos (length (functionParts symbol ! 0))"
  shows "resolveImportPath symbol rawPath =
           Inr \<lparr>Repo = [], RelativePath = drop pos rawPath, Revision = []\<rparr>
       \<and> (\<exists>j<length (Split rawPath CHR ''/'').
             Split rawPath CHR ''/'' ! j = functionParts symbol ! 0
           \<and> (\<forall>k. j < k \<and> k < length (Split rawPath CHR ''/'') \<longrightarrow>
                  Split rawPath CHR ''/'' ! k \<noteq> functionParts symbol ! 0)
           \<and> drop pos rawPath = Join (drop j (Split rawPath CHR ''/'')) ''/'')"
proof -
  from assms(2) obtain spec pathParts where
    sc: "scanLoop rawPath (Split rawPath CHR ''/'') 0 zeroSpec = Fallthrough spec pathParts"
    by (rule scanLoop_not_direct)
  have "\<not> Contains (functionParts symbol ! 0) ''.''"
    using assms(3) by (simp add: Contains_single)
  with sc assms(1,4) have r: "resolveImportPath symbol rawPath =
           Inr \<lparr>Repo = [], RelativePath = drop pos rawPath, Revision = []\<rparr>"
    by (simp add: resolveImportPath_def Let_def)
  have "functionParts symbol ! 0 \<in> set (functionParts symbol)"
    using functionParts_not_Nil[of symbol] by simp
  then have "CHR ''/'' \<notin> set (functionParts symbol ! 0)" by (rule functionParts_no_slash)
  from last_whole_segment[OF assms(4,5) this] r show ?thesis by simp
qed

theorem C4_stdlib_witness:
  "resolveImportPath ''runtime.gopark'' ''/usr/lib/go/src/runtime/proc.go'' =
     Inr \<lparr>Repo = [], RelativePath = ''runtime/proc.go'', Revision = []\<rparr>"
proof -
  have fp: "functionParts ''runtime.gopark'' = [''runtime'']" by code_simp
  have h1: "''runtime.gopark'' \<noteq> []" by simp
  have h2: "HasPrefix ''/usr/lib/go/src/runtime/proc.go'' ''/'' \<or> CHR ''@'' \<notin> set ''/usr/lib/go/src/runtime/proc.go''"
    by simp
  have h3: "CHR ''.'' \<notin> set (functionParts ''runtime.gopark'' ! 0)" unfolding fp by simp
  have h4: "LastIndex ''/usr/lib/go/src/runtime/proc.go'' (functionParts ''runtime.gopark'' ! 0) = int 16"
    unfolding fp by code_simp
  have h5: "wholeSegmentAt ''/usr/lib/go/src/runtime/proc.go'' 16 (length (functionParts ''runtime.gopark'' ! 0))"
    unfolding fp by code_simp
  show ?thesis using C4_stdlib[OF h1 h2 h3 h4 h5, THEN conjunct1] by simp
qed


text \<open>
  Claim C4 as stated holds for every non-empty symbol whose first qualifier part has no
  \<open>"."\<close>. It fails for a relative path with a version specifier, where the direct form
  returns before the symbol is looked at.
\<close>

theorem C4_direct_form_counterexample:
  "functionParts ''runtime.gopark'' ! 0 = ''runtime'' \<and>
   resolveImportPath ''runtime.gopark'' ''golang.org/toolchain@v0.0.1/src/runtime/proc.go'' =
     Inr \<lparr>Repo = ''golang.org/toolchain'', RelativePath = ''src/runtime/proc.go'',
          Revision = ''v0.0.1''\<rparr>"
  by code_simp

lemma stdlib_substring_example:
  "resolveImportPath ''io.Copy'' ''/usr/local/go/src/io/io.go'' =
     Inr \<lparr>Repo = [], RelativePath = ''io.go'', Revision = []\<rparr>"
  by code_simp

section \<open>The repository and the relative path from the symbol\<close>

text \<open>
  Claim C5, amended. For a non-empty symbol whose first qualifier part has a \<open>"."\<close> and
  that has at least 3 qualifier parts \<open>qs\<close>, with \<open>N\<close> the number of parts beyond the
  first 3 plus one, and a path not resolved by the direct form, \<open>Repo\<close> is the join of
  the first 3 parts and
  \<^item> when the path has no \<open>"@"\<close> and at least \<open>N\<close> segments, \<open>RelativePath\<close> is the join
    of its last \<open>N\<close> segments and \<open>Revision\<close> is empty;
  \<^item> when the path begins with \<open>"/"\<close> and its first segment with an \<open>"@"\<close> is
    \<open>a @ "@" @ b\<close> at index \<open>i\<close>, \<open>Revision\<close> is \<open>b\<close> and \<open>RelativePath\<close> is the join
    of the segments after \<open>i\<close> if that is not empty, and otherwise the join of the last
    \<open>N\<close> segments, the \<open>i\<close>-th cut to \<open>a\<close>, if there are at least \<open>N\<close>.
\<close>

theorem C5_hosted:
  assumes qs: "qs = functionParts symbol" and segs: "segs = Split rawPath CHR ''/''"
    and N: "N = length qs - 3 + 1"
    and ne: "symbol \<noteq> []" and dot: "CHR ''.'' \<in> set (qs ! 0)" and three: "3 \<le> length qs"
  shows "(CHR ''@'' \<notin> set rawPath \<and> N \<le> length segs \<longrightarrow>
            resolveImportPath symbol rawPath =
              Inr \<lparr>Repo = Join (take 3 qs) ''/'',
                   RelativePath = Join (drop (length segs - N) segs) ''/'', Revision = []\<rparr>)
       \<and> (\<forall>i a b. HasPrefix rawPath ''/'' \<and> i < length segs \<and> segs ! i = a @ CHR ''@'' # b
              \<and> CHR ''@'' \<notin> set b \<and> (\<forall>j<i. CHR ''@'' \<notin> set (segs ! j)) \<longrightarrow>
            (Join (drop (Suc i) segs) ''/'' \<noteq> [] \<longrightarrow>
               resolveImportPath symbol rawPath =
                 Inr \<lparr>Repo = Join (take 3 qs) ''/'',
                      RelativePath = Join (drop (Suc i) segs) ''/'', Revision = b\<rparr>)
          \<and> (Join (drop (Suc i) segs) ''/'' = [] \<and> N \<le> length segs \<longrightarrow>
               resolveImportPath symbol rawPath =
                 Inr \<lparr>Repo = Join (take 3 qs) ''/'',
                      RelativePath = Join (drop (length segs - N) (segs[i := a])) ''/'',
                      Revision = b\<rparr>))"
proof -
  have c: "Contains (functionParts symbol ! 0) ''.''"
    using dot qs by (simp add: Contains_single)
  have three': "3 \<le> length (functionParts symbol)" using three qs by simp
  have part1: "resolveImportPath symbol rawPath =
              Inr \<lparr>Repo = Join (take 3 qs) ''/'',
                   RelativePath = Join (drop (length segs - N) segs) ''/'', Revision = []\<rparr>"
    if "CHR ''@'' \<notin> set rawPath" "N \<le> length segs"
  proof -
    have "\<forall>j. 0 \<le> j \<and> j < length segs \<longrightarrow> CHR ''@'' \<notin> set (segs ! j)"
      using that(1) marker_in_segment[of rawPath "CHR ''/''" "CHR ''@''"] segs by auto
    then have sc: "scanLoop rawPath (Split rawPath CHR ''/'') 0 zeroSpec = Fallthrough zeroSpec segs"
      unfolding segs by (rule scanLoop_no_marker)
    have st: "nat (int (length segs) - int (length qs - 3) - 1) = length segs - N"
      using N by simp
    have nneg: "\<not> int (length segs) - int (length qs - 3) - 1 < 0"
      using that(2) N by simp
    show ?thesis
      using sc ne c three' nneg st
      by (simp add: resolveImportPath_def Let_def zeroSpec_def qs[symmetric])
  qed
  have part2: "(Join (drop (Suc i) segs) ''/'' \<noteq> [] \<longrightarrow>
               resolveImportPath symbol rawPath =
                 Inr \<lparr>Repo = Join (take 3 qs) ''/'',
                      RelativePath = Join (drop (Suc i) segs) ''/'', Revision = b\<rparr>)
          \<and> (Join (drop (Suc i) segs) ''/'' = [] \<and> N \<le> length segs \<longrightarrow>
               resolveImportPath symbol rawPath =
                 Inr \<lparr>Repo = Join (take 3 qs) ''/'',
                      RelativePath = Join (drop (length segs - N) (segs[i := a])) ''/'',
                      Revision = b\<rparr>)"
    if h: "HasPrefix rawPath ''/''" "i < length segs" "segs ! i = a @ CHR ''@'' # b"
       "CHR ''@'' \<notin> set b" "\<forall>j<i. CHR ''@'' \<notin> set (segs ! j)" for i a b
  proof -
    have sc: "scanLoop rawPath (Split rawPath CHR ''/'') 0 zeroSpec =
        Fallthrough (zeroSpec\<lparr>Revision := b, RelativePath := Join (drop (Suc i) segs) ''/''\<rparr>)
                    (segs[i := a])"
      using scanLoop_marker[of 0 i segs a b rawPath zeroSpec] h unfolding segs by simp
    have st: "nat (int (length segs) - int (length qs - 3) - 1) = length segs - N"
      using N by simp
    have nneg: "N \<le> length segs \<Longrightarrow> \<not> int (length segs) - int (length qs - 3) - 1 < 0"
      using N by simp
    show ?thesis
      using sc ne c three' nneg st
      by (simp add: resolveImportPath_def Let_def zeroSpec_def qs[symmetric])
  qed
  from part1 part2 show ?thesis by blast
qed


theorem C5_hosted_witness:
  "resolveImportPath ''github.com/grafana/phlare/pkg/phlaredb.(*profileStore).cutRowGroup''
       ''/home/runner/work/phlare/phlare/pkg/phlaredb/profile_store.go'' =
     Inr \<lparr>Repo = ''github.com/grafana/phlare'', RelativePath = ''pkg/phlaredb/profile_store.go'',
          Revision = []\<rparr>
   \<and> resolveImportPath ''github.com/felixge/httpsnoop.(*Metrics).CaptureMetrics''
       ''/mod/github.com/felixge/httpsnoop@v1.0.3/capture_metrics.go'' =
     Inr \<lparr>Repo = ''github.com/felixge/httpsnoop'', RelativePath = ''capture_metrics.go'',
          Revision = ''v1.0.3''\<rparr>
   \<and> resolveImportPath ''github.com/a/b.F'' ''/m/b@v1'' =
     Inr \<lparr>Repo = ''github.com/a/b'', RelativePath = ''b'', Revision = ''v1''\<rparr>"
proof -
  let ?f1 = "''github.com/grafana/phlare/pkg/phlaredb.(*profileStore).cutRowGroup''"
  let ?p1 = "''/home/runner/work/phlare/phlare/pkg/phlaredb/profile_store.go''"
  have q1: "[''github.com'', ''grafana'', ''phlare'', ''pkg'', ''phlaredb''] = functionParts ?f1"
    by code_simp
  have s1: "[[], ''home'', ''runner'', ''work'', ''phlare'', ''phlare'', ''pkg'', ''phlaredb'',
             ''profile_store.go''] = Split ?p1 CHR ''/''"
    by simp
  have r1: "resolveImportPath ?f1 ?p1 =
     Inr \<lparr>Repo = ''github.com/grafana/phlare'', RelativePath = ''pkg/phlaredb/profile_store.go'',
          Revision = []\<rparr>"
    using C5_hosted[OF q1 s1, of 3] by simp
  let ?f2 = "''github.com/felixge/httpsnoop.(*Metrics).CaptureMetrics''"
  let ?p2 = "''/mod/github.com/felixge/httpsnoop@v1.0.3/capture_metrics.go''"
  have q2: "[''github.com'', ''felixge'', ''httpsnoop''] = functionParts ?f2"
    by code_simp
  have s2: "[[], ''mod'', ''github.com'', ''felixge'', ''httpsnoop@v1.0.3'', ''capture_metrics.go'']
             = Split ?p2 CHR ''/''"
    by simp
  have b2: "\<forall>j<4. CHR ''@'' \<notin> set ([[], ''mod'', ''github.com'', ''felixge'', ''httpsnoop@v1.0.3'', ''capture_metrics.go''] ! j)"
    by (simp add: numeral_eq_Suc less_Suc_eq)
  have r2: "resolveImportPath ?f2 ?p2 =
     Inr \<lparr>Repo = ''github.com/felixge/httpsnoop'', RelativePath = ''capture_metrics.go'',
          Revision = ''v1.0.3''\<rparr>"
    using C5_hosted[OF q2 s2, of 1, THEN conjunct2, rule_format, of 4 "''httpsnoop''" "''v1.0.3''"] b2
    by simp
  let ?f3 = "''github.com/a/b.F''"
  let ?p3 = "''/m/b@v1''"
  have q3: "[''github.com'', ''a'', ''b''] = functionParts ?f3"
    by code_simp
  have s3: "[[], ''m'', ''b@v1''] = Split ?p3 CHR ''/''"
    by simp
  have b3: "\<forall>j<2. CHR ''@'' \<notin> set ([[], ''m'', ''b@v1''] ! j)"
    by (simp add: numeral_eq_Suc less_Suc_eq)
  have r3: "resolveImportPath ?f3 ?p3 =
     Inr \<lparr>Repo = ''github.com/a/b'', RelativePath = ''b'', Revision = ''v1''\<rparr>"
    using C5_hosted[OF q3 s3, of 1, THEN conjunct2, rule_format, of 2 "''b''" "''v1''"] b3
    by simp
  from r1 r2 r3 show ?thesis by simp
qed

text \<open>
  Claim C5 as stated gives the last \<open>N\<close> segments of the path whenever the direct form
  did not apply. For an absolute path into a module cache the code keeps the relative path
  found after the version specifier: here \<open>N = 3\<close>, the last three segments are
  \<open>internal/controller/controller.go\<close>, and the result is
  \<open>pkg/internal/controller/controller.go\<close>.
\<close>

theorem C5_fixed_path_counterexample:
  "functionParts ''sigs.k8s.io/controller-runtime/pkg/internal/controller.(*Controller).processNextWorkItem''
     = [''sigs.k8s.io'', ''controller-runtime'', ''pkg'', ''internal'', ''controller'']
   \<and> Join (drop (length (Split ''/go/pkg/mod/sigs.k8s.io/controller-runtime@v0.13.1/pkg/internal/controller/controller.go'' CHR ''/'') - 3)
              (Split ''/go/pkg/mod/sigs.k8s.io/controller-runtime@v0.13.1/pkg/internal/controller/controller.go'' CHR ''/'')) ''/''
     = ''internal/controller/controller.go''
   \<and> resolveImportPath
        ''sigs.k8s.io/controller-runtime/pkg/internal/controller.(*Controller).processNextWorkItem''
        ''/go/pkg/mod/sigs.k8s.io/controller-runtime@v0.13.1/pkg/internal/controller/controller.go''
     = Inr \<lparr>Repo = ''sigs.k8s.io/controller-runtime/pkg'',
            RelativePath = ''pkg/internal/controller/controller.go'', Revision = ''v0.13.1''\<rparr>"
  by code_simp

section \<open>The shape of a result\<close>

lemma Join_last_nonempty: "xs \<noteq> [] \<Longrightarrow> last xs \<noteq> [] \<Longrightarrow> Join xs sep \<noteq> []"
  by (induction xs sep rule: Join.induct) auto

lemma Join_two_nonempty: "2 \<le> length xs \<Longrightarrow> sep \<noteq> [] \<Longrightarrow> Join xs sep \<noteq> []"
  by (induction xs sep rule: Join.induct) auto

lemma resolveImportPath_Fallthrough:
  assumes "scanLoop path (Split path CHR ''/'') 0 zeroSpec = Fallthrough spec pathParts"
    and "function \<noteq> []"
    and "fp = functionParts function"
    and "R = (if Repo spec = [] \<and> 3 \<le> length fp then Join (take 3 fp) ''/'' else Repo spec)"
    and "N = (if Repo spec = [] \<and> 3 \<le> length fp then length fp - 3 else length fp) + 1"
  shows "resolveImportPath function path =
     (if \<not> Contains (fp ! 0) ''.'' \<and> 0 \<le> LastIndex path (fp ! 0)
      then Inr \<lparr>Repo = [], RelativePath = drop (nat (LastIndex path (fp ! 0))) path, Revision = []\<rparr>
      else if RelativePath spec \<noteq> [] then Inr (spec\<lparr>Repo := R\<rparr>)
      else if length pathParts < N then Inl PanicSliceBounds
      else Inr (spec\<lparr>Repo := R, RelativePath := Join (drop (length pathParts - N) pathParts) ''/''\<rparr>))"
proof -
  have st: "nat (int (length pathParts) - int k - 1) = length pathParts - (k + 1)" for k
    by simp
  have ng: "(int (length pathParts) - int k - 1 < 0) = (length pathParts < k + 1)" for k
    by auto
  have a1: "nat (2 + (int L - int F)) = Suc (Suc L) - F" if "3 \<le> F" for L F :: nat
    using that by linarith
  show ?thesis
    using assms(1,2) unfolding assms(3,4,5)
    by (auto simp: resolveImportPath_def Let_def st ng a1)
qed


text \<open>When the path has no \<open>"@"\<close>, the call panics exactly when it does not leave
  through the standard-library branch and the path has fewer segments than the qualifier
  parts that remain, plus one.\<close>

lemma resolveImportPath_panic_iff:
  assumes "fn \<noteq> []" and "CHR ''@'' \<notin> set path" and "fp = functionParts fn"
  shows "(resolveImportPath fn path = Inl PanicSliceBounds) =
     ((Contains (fp ! 0) ''.'' \<or> LastIndex path (fp ! 0) < 0)
      \<and> length (Split path CHR ''/'') < (if 3 \<le> length fp then length fp - 3 else length fp) + 1)"
proof -
  have "\<forall>j. 0 \<le> j \<and> j < length (Split path CHR ''/'') \<longrightarrow>
      CHR ''@'' \<notin> set (Split path CHR ''/'' ! j)"
    using assms(2) marker_in_segment[of path "CHR ''/''" "CHR ''@''"] by auto
  then have sc: "scanLoop path (Split path CHR ''/'') 0 zeroSpec =
      Fallthrough zeroSpec (Split path CHR ''/'')"
    by (rule scanLoop_no_marker)
  show ?thesis
    using resolveImportPath_Fallthrough[OF sc assms(1,3) refl refl]
    by (auto simp: zeroSpec_def)
qed


lemma LastIndex_drop_nonempty:
  assumes "0 \<le> LastIndex s sub" and "sub \<noteq> []"
  shows "drop (nat (LastIndex s sub)) s \<noteq> []"
proof -
  from assms(1) have "LastIndex s sub = int (nat (LastIndex s sub))" by simp
  from LastIndex_occurs[OF this] assms(2) show ?thesis by auto
qed

text \<open>
  Claim C7, amended. Whenever \<open>resolveImportPath\<close> succeeds with \<open>r\<close>:
  \<^item> \<open>RelativePath r\<close> is not empty if the last segment of \<open>rawPath\<close> is not empty and
    either has no \<open>"@"\<close>, or \<open>rawPath\<close> begins with \<open>"/"\<close> and the text before the
    last \<open>"@"\<close> of that segment is not empty, and the first qualifier part of a non-empty
    symbol is not empty;
  \<^item> \<open>Repo r\<close> and \<open>Revision r\<close> are both empty only if the result comes from the
    standard-library branch, or the symbol has fewer than 3 qualifier parts, or
    \<open>rawPath\<close> begins with \<open>"@"\<close>.
\<close>

theorem C7_result_shape:
  assumes res: "resolveImportPath symbol rawPath = Inr r"
    and segs: "segs = Split rawPath CHR ''/''"
  shows "(last segs \<noteq> []
          \<and> (CHR ''@'' \<notin> set (last segs) \<or>
               HasPrefix rawPath ''/'' \<and> take (nat (LastIndex (last segs) ''@'')) (last segs) \<noteq> [])
          \<and> (symbol = [] \<or> functionParts symbol ! 0 \<noteq> [])
            \<longrightarrow> RelativePath r \<noteq> [])
       \<and> (Repo r = [] \<and> Revision r = []
            \<longrightarrow> stdLibResult symbol rawPath \<or> length (functionParts symbol) < 3
                 \<or> HasPrefix rawPath ''@'')"
proof -
  have ne: "segs \<noteq> []" unfolding segs by (rule Split_not_Nil)
  define fp where "fp = functionParts symbol"
  \<comment> \<open>what a fall-through of the scan gives\<close>
  have fall: "(fp ! 0 \<noteq> [] \<and> pathParts \<noteq> [] \<and> (RelativePath spec \<noteq> [] \<or> last pathParts \<noteq> [])
                \<longrightarrow> RelativePath r \<noteq> [])
            \<and> (Repo r = [] \<longrightarrow> stdLibResult symbol rawPath \<or> length fp < 3)"
    if sc: "scanLoop rawPath (Split rawPath CHR ''/'') 0 zeroSpec = Fallthrough spec pathParts"
      and repo: "Repo spec = []"
    for spec pathParts
  proof -
    from res sc have sym: "symbol \<noteq> []" by (auto simp: resolveImportPath_def)
    note eq = resolveImportPath_Fallthrough[OF sc sym fp_def refl refl]
    show ?thesis
    proof (cases "\<not> Contains (fp ! 0) ''.'' \<and> 0 \<le> LastIndex rawPath (fp ! 0)")
      case True
      with eq res have r: "r = \<lparr>Repo = [], RelativePath = drop (nat (LastIndex rawPath (fp ! 0))) rawPath, Revision = []\<rparr>"
        by simp
      have "stdLibResult symbol rawPath"
        using True sc sym by (simp add: stdLibResult_def fp_def)
      moreover have "fp ! 0 \<noteq> [] \<Longrightarrow> RelativePath r \<noteq> []"
        using True r LastIndex_drop_nonempty[of rawPath "fp ! 0"] by simp
      ultimately show ?thesis by simp
    next
      case False
      show ?thesis
      proof (cases "RelativePath spec \<noteq> []")
        case True
        with eq res False repo
        have r: "r = spec\<lparr>Repo := (if 3 \<le> length fp then Join (take 3 fp) ''/'' else [])\<rparr>"
          by (simp split: if_splits)
        have "3 \<le> length fp \<Longrightarrow> Join (take 3 fp) ''/'' \<noteq> []"
          by (rule Join_two_nonempty) simp_all
        with r True show ?thesis by (auto split: if_splits)
      next
        case rel: False
        define N where "N = (if 3 \<le> length fp then length fp - 3 else length fp) + 1"
        from eq res False rel repo have len: "\<not> length pathParts < N"
          and r: "r = spec\<lparr>Repo := (if 3 \<le> length fp then Join (take 3 fp) ''/'' else []),
                        RelativePath := Join (drop (length pathParts - N) pathParts) ''/''\<rparr>"
          by (auto simp: N_def split: if_splits)
        have "3 \<le> length fp \<Longrightarrow> Join (take 3 fp) ''/'' \<noteq> []"
          by (rule Join_two_nonempty) simp_all
        moreover have "RelativePath r \<noteq> []" if "last pathParts \<noteq> []" "pathParts \<noteq> []"
        proof -
          have lt: "length pathParts - N < length pathParts"
            using that(2) by (simp add: N_def)
          then have "drop (length pathParts - N) pathParts \<noteq> []" by simp
          moreover have "last (drop (length pathParts - N) pathParts) \<noteq> []"
            using lt that(1) by simp
          ultimately show ?thesis using r by (simp add: Join_last_nonempty)
        qed
        ultimately show ?thesis using r rel by (auto split: if_splits)
      qed
    qed
  qed
  show ?thesis
  proof (cases rule: scanLoop_cases[of 0 segs rawPath zeroSpec])
    case none
    then have sc: "scanLoop rawPath (Split rawPath CHR ''/'') 0 zeroSpec = Fallthrough zeroSpec segs"
      by (simp add: segs)
    from res sc have sym: "symbol \<noteq> []" by (auto simp: resolveImportPath_def)
    from fall[OF sc] ne sym show ?thesis
      by (auto simp: zeroSpec_def fp_def)
  next
    case (marker i a b)
    show ?thesis
    proof (cases "HasPrefix rawPath ''/''")
      case False
      with marker res have r: "r = \<lparr>Repo = Join (take i segs @ [a]) ''/'',
          RelativePath = Join (drop (Suc i) segs) ''/'', Revision = b\<rparr>"
        by (simp add: resolveImportPath_def segs zeroSpec_def)
      have rel: "RelativePath r \<noteq> []" if "last segs \<noteq> []" "CHR ''@'' \<notin> set (last segs)"
      proof -
        have "i \<noteq> length segs - 1"
          using that(2) marker(3) ne by (auto simp: last_conv_nth)
        with marker(2) have lt: "Suc i < length segs" by simp
        then have "drop (Suc i) segs \<noteq> []" by simp
        moreover have "last (drop (Suc i) segs) \<noteq> []" using lt that(1) by simp
        ultimately show ?thesis using r by (simp add: Join_last_nonempty)
      qed
      have both: "HasPrefix rawPath ''@''" if "Repo r = []" "Revision r = []"
      proof -
        have "i = 0"
        proof (rule ccontr)
          assume "i \<noteq> 0"
          then have "2 \<le> length (take i segs @ [a])" using marker(2) by simp
          then have "Join (take i segs @ [a]) ''/'' \<noteq> []" by (rule Join_two_nonempty) simp
          with that(1) r show False by simp
        qed
        with that r have "a = []" "b = []" by simp_all
        with marker(3) \<open>i = 0\<close> have "segs ! 0 = ''@''" by simp
        with Split_first_prefix[of rawPath "CHR ''/''"] show ?thesis by (simp add: segs)
      qed
      from rel both False show ?thesis by blast
    next
      case True
      with marker have sc: "scanLoop rawPath (Split rawPath CHR ''/'') 0 zeroSpec =
          Fallthrough (zeroSpec\<lparr>Revision := b, RelativePath := Join (drop (Suc i) segs) ''/''\<rparr>)
                      (segs[i := a])"
        by (simp add: segs)
      from res sc have sym: "symbol \<noteq> []" by (auto simp: resolveImportPath_def)
      have h: "Join (drop (Suc i) segs) ''/'' \<noteq> [] \<or> last (segs[i := a]) \<noteq> []"
        if l: "last segs \<noteq> []"
          and m: "CHR ''@'' \<notin> set (last segs) \<or>
                  take (nat (LastIndex (last segs) ''@'')) (last segs) \<noteq> []"
      proof (cases "Suc i < length segs")
        case lt: True
        then have "drop (Suc i) segs \<noteq> []" by simp
        moreover have "last (drop (Suc i) segs) \<noteq> []" using lt l by simp
        ultimately show ?thesis by (simp add: Join_last_nonempty)
      next
        case False
        with marker(2) have i: "i = length segs - 1" by simp
        then have ls: "last segs = a @ CHR ''@'' # b"
          using marker(3) ne by (simp add: last_conv_nth)
        have "LastIndex (last segs) ''@'' = int (length a)"
          unfolding ls using marker(4) by (rule LastIndex_single)
        with m ls have "a \<noteq> []" by auto
        moreover have "last (segs[i := a]) = a"
          using i ne by (simp add: last_conv_nth)
        ultimately show ?thesis by simp
      qed
      from fall[OF sc] h sym ne show ?thesis
        by (auto simp: zeroSpec_def fp_def)
    qed
  qed
qed


theorem C7_result_shape_witness:
  "RelativePath \<lparr>Repo = ''github.com/felixge/httpsnoop'', RelativePath = ''capture_metrics.go'',
                 Revision = ''v1.0.3''\<rparr> \<noteq> []
   \<and> RelativePath \<lparr>Repo = ''github.com/a/b'', RelativePath = ''b'', Revision = ''v1''\<rparr> \<noteq> []
   \<and> (stdLibResult ''runtime.gopark'' ''/usr/lib/go/src/runtime/proc.go''
        \<or> length (functionParts ''runtime.gopark'') < 3
        \<or> HasPrefix ''/usr/lib/go/src/runtime/proc.go'' ''@'')"
proof -
  let ?f1 = "''github.com/felixge/httpsnoop.(*Metrics).CaptureMetrics''"
  let ?p1 = "''/mod/github.com/felixge/httpsnoop@v1.0.3/capture_metrics.go''"
  let ?r1 = "\<lparr>Repo = ''github.com/felixge/httpsnoop'', RelativePath = ''capture_metrics.go'',
              Revision = ''v1.0.3''\<rparr>"
  have e1: "resolveImportPath ?f1 ?p1 = Inr ?r1" by code_simp
  have s1: "[[], ''mod'', ''github.com'', ''felixge'', ''httpsnoop@v1.0.3'', ''capture_metrics.go'']
             = Split ?p1 CHR ''/''"
    by simp
  have q1: "functionParts ?f1 = [''github.com'', ''felixge'', ''httpsnoop'']" by code_simp
  have w1: "RelativePath ?r1 \<noteq> []"
    using C7_result_shape[OF e1 s1, THEN conjunct1] q1 by simp
  let ?f2 = "''github.com/a/b.F''"
  let ?p2 = "''/m/b@v1''"
  let ?r2 = "\<lparr>Repo = ''github.com/a/b'', RelativePath = ''b'', Revision = ''v1''\<rparr>"
  have e2: "resolveImportPath ?f2 ?p2 = Inr ?r2" by code_simp
  have s2: "[[], ''m'', ''b@v1''] = Split ?p2 CHR ''/''" by simp
  have q2: "functionParts ?f2 = [''github.com'', ''a'', ''b'']" by code_simp
  have l2: "LastIndex ''b@v1'' ''@'' = 1" by code_simp
  have w2: "RelativePath ?r2 \<noteq> []"
    using C7_result_shape[OF e2 s2, THEN conjunct1] q2 l2 by simp
  let ?f3 = "''runtime.gopark''"
  let ?p3 = "''/usr/lib/go/src/runtime/proc.go''"
  let ?r3 = "\<lparr>Repo = [], RelativePath = ''runtime/proc.go'', Revision = []\<rparr>"
  have e3: "resolveImportPath ?f3 ?p3 = Inr ?r3" by code_simp
  have w3: "stdLibResult ?f3 ?p3 \<or> length (functionParts ?f3) < 3 \<or> HasPrefix ?p3 ''@''"
    using C7_result_shape[OF e3 refl, THEN conjunct2] by simp
  from w1 w2 w3 show ?thesis by blast
qed

text \<open>
  Claim C7 as stated fails in both halves: the direct form returns an empty
  \<open>RelativePath\<close> when the version specifier is in the last segment, and a symbol with a
  \<open>"."\<close> in its first part and fewer than 3 qualifier parts gives empty \<open>Repo\<close> and
  \<open>Revision\<close> outside the standard-library branch.
\<close>

theorem C7_empty_fields_counterexample:
  "resolveImportPath [] ''github.com/aws/aws-sdk-go@v1.44.163'' =
     Inr \<lparr>Repo = ''github.com/aws/aws-sdk-go'', RelativePath = [], Revision = ''v1.44.163''\<rparr>
   \<and> resolveImportPath ''example.com/pkg.Func'' ''/src/pkg/x.go'' =
     Inr \<lparr>Repo = [], RelativePath = ''src/pkg/x.go'', Revision = []\<rparr>
   \<and> \<not> stdLibResult ''example.com/pkg.Func'' ''/src/pkg/x.go''"
  by code_simp



section \<open>The search for the file\<close>

lemma HasSuffix_append: "HasSuffix s suf \<Longrightarrow> \<exists>pre. s = pre @ suf"
  by (auto simp: HasSuffix_iff_suffix suffix_def)

lemma HasSuffix_same_length:
  "HasSuffix s a \<Longrightarrow> HasSuffix s b \<Longrightarrow> length a = length b \<Longrightarrow> a = b"
  by (auto simp: HasSuffix_def)

lemma walkFn_printed:
  assumes "walkFn n sp d st = Inr st1" and "r \<in> set (printed st1)"
  shows "r \<in> set (printed st) \<or> (accepted n sp d \<and> r = relPathOf n d)"
  using assms
  by (auto simp: walkFn_def accepted_def relPathOf_def Let_def split: if_splits)

lemma walkDirLoop_printed:
  assumes "walkDirLoop n sp ds st = Inr st1" and "r \<in> set (printed st1)"
  shows "r \<in> set (printed st) \<or> (\<exists>d\<in>set ds. accepted n sp d \<and> r = relPathOf n d)"
  using assms
proof (induction ds arbitrary: st)
  case Nil
  then show ?case by simp
next
  case (Cons d ds)
  from Cons.prems(1) obtain st2 where w: "walkFn n sp d st = Inr st2"
    and l: "walkDirLoop n sp ds st2 = Inr st1"
    by (auto split: sum.splits)
  from Cons.IH[OF l Cons.prems(2)]
  show ?case
  proof
    assume "r \<in> set (printed st2)"
    with walkFn_printed[OF w] show ?thesis by auto
  next
    assume "\<exists>d\<in>set ds. accepted n sp d \<and> r = relPathOf n d"
    then show ?thesis by auto
  qed
qed

text \<open>
  Claim C3, amended. For every module directory and recorded path, a relative path that
  the walk prints as found is the root-relative path of a visited entry that is no
  directory, and the recorded path ends with it. (The character before the suffix is not
  looked at.)
\<close>

theorem C3_candidate_is_suffix:
  assumes "walkDirLoop (length dir) recordedPath entries \<lparr>foundFile = [], printed = []\<rparr> = Inr st"
    and "relPath \<in> set (printed st)"
  shows "(\<exists>d\<in>set entries. \<not> entryIsDir d \<and> relPath = drop (length dir + 1) (entryPath d))
       \<and> (\<exists>pre. recordedPath = pre @ relPath)"
proof -
  from walkDirLoop_printed[OF assms] obtain d where d: "d \<in> set entries"
    and a: "accepted (length dir) recordedPath d" and r: "relPath = relPathOf (length dir) d"
    by auto
  from a r have "HasSuffix recordedPath relPath" by (simp add: accepted_def)
  then have "\<exists>pre. recordedPath = pre @ relPath" by (rule HasSuffix_append)
  moreover from d a r
  have "\<exists>d\<in>set entries. \<not> entryIsDir d \<and> relPath = drop (length dir + 1) (entryPath d)"
    by (auto simp: accepted_def relPathOf_def)
  ultimately show ?thesis by simp
qed

theorem C3_candidate_is_suffix_witness:
  "(\<exists>d\<in>set [\<lparr>entryPath = ''/m'', entryIsDir = True\<rparr>,
              \<lparr>entryPath = ''/m/pkg/a/file.go'', entryIsDir = False\<rparr>].
       \<not> entryIsDir d \<and> ''pkg/a/file.go'' = drop (length ''/m'' + 1) (entryPath d))
   \<and> (\<exists>pre. ''/build/machine/pkg/a/file.go'' = pre @ ''pkg/a/file.go'')"
proof -
  have w: "walkDirLoop (length ''/m'') ''/build/machine/pkg/a/file.go''
        [\<lparr>entryPath = ''/m'', entryIsDir = True\<rparr>,
         \<lparr>entryPath = ''/m/pkg/a/file.go'', entryIsDir = False\<rparr>]
        \<lparr>foundFile = [], printed = []\<rparr>
      = Inr \<lparr>foundFile = ''pkg/a/file.go'', printed = [''pkg/a/file.go'']\<rparr>"
    by (simp add: walkFn_def HasSuffix_def Let_def)
  have m: "''pkg/a/file.go'' \<in> set (printed \<lparr>foundFile = ''pkg/a/file.go'', printed = [''pkg/a/file.go'']\<rparr>)"
    by simp
  from C3_candidate_is_suffix[OF w m] show ?thesis .
qed

text \<open>
  Claim C3 as stated asks for a path separator before the suffix. The file \<open>bc.go\<close> of
  the module is found for a recorded path that ends in \<open>/abc.go\<close>.
\<close>

theorem C3_segment_boundary_counterexample:
  "walkDirLoop (length ''/m'') ''/x/abc.go''
      [\<lparr>entryPath = ''/m'', entryIsDir = True\<rparr>, \<lparr>entryPath = ''/m/bc.go'', entryIsDir = False\<rparr>]
      \<lparr>foundFile = [], printed = []\<rparr>
     = Inr \<lparr>foundFile = ''bc.go'', printed = [''bc.go'']\<rparr>
   \<and> findFile [\<lparr>entryPath = ''/m'', entryIsDir = True\<rparr>, \<lparr>entryPath = ''/m/bc.go'', entryIsDir = False\<rparr>]
        ''/m'' ''/x/abc.go'' = Inr ''bc.go''
   \<and> \<not> segmentAlignedSuffix ''/x/abc.go'' ''bc.go''"
  by (simp add: findFile_def walkFn_def HasSuffix_def segmentAlignedSuffix_def Let_def)

lemma walkFn_ok:
  assumes "entryIsDir d \<or> n + 1 \<le> length (entryPath d)"
  shows "walkFn n sp d st =
     Inr (if accepted n sp d
          then \<lparr>foundFile = (if length (foundFile st) < length (relPathOf n d)
                              then relPathOf n d else foundFile st),
                printed = printed st @ [relPathOf n d]\<rparr>
          else st)"
  using assms by (auto simp: walkFn_def accepted_def relPathOf_def Let_def)

lemma walkDirLoop_ok:
  assumes "\<forall>d\<in>set ds. entryIsDir d \<or> n + 1 \<le> length (entryPath d)"
  shows "\<exists>st1. walkDirLoop n sp ds st = Inr st1
      \<and> (foundFile st1 = foundFile st \<or> (\<exists>d\<in>set ds. accepted n sp d \<and> foundFile st1 = relPathOf n d))
      \<and> length (foundFile st) \<le> length (foundFile st1)
      \<and> (\<forall>d\<in>set ds. accepted n sp d \<longrightarrow> length (relPathOf n d) \<le> length (foundFile st1))"
  using assms
proof (induction ds arbitrary: st)
  case Nil
  then show ?case by simp
next
  case (Cons d ds)
  define st2 where "st2 = (if accepted n sp d
          then \<lparr>foundFile = (if length (foundFile st) < length (relPathOf n d)
                              then relPathOf n d else foundFile st),
                printed = printed st @ [relPathOf n d]\<rparr>
          else st)"
  have w: "walkFn n sp d st = Inr st2"
    unfolding st2_def using Cons.prems by (intro walkFn_ok) simp
  from Cons.prems have "\<forall>d\<in>set ds. entryIsDir d \<or> n + 1 \<le> length (entryPath d)" by simp
  from Cons.IH[OF this, of st2] obtain st1 where l: "walkDirLoop n sp ds st2 = Inr st1"
    and f: "foundFile st1 = foundFile st2 \<or> (\<exists>d\<in>set ds. accepted n sp d \<and> foundFile st1 = relPathOf n d)"
    and g: "length (foundFile st2) \<le> length (foundFile st1)"
    and h: "\<forall>d\<in>set ds. accepted n sp d \<longrightarrow> length (relPathOf n d) \<le> length (foundFile st1)"
    by blast
  have s2: "foundFile st2 = foundFile st \<or> (accepted n sp d \<and> foundFile st2 = relPathOf n d)"
    by (auto simp: st2_def)
  have s3: "length (foundFile st) \<le> length (foundFile st2)"
    by (auto simp: st2_def)
  have s4: "accepted n sp d \<Longrightarrow> length (relPathOf n d) \<le> length (foundFile st2)"
    by (auto simp: st2_def)
  have "walkDirLoop n sp (d # ds) st = Inr st1" using w l by simp
  moreover have "foundFile st1 = foundFile st \<or>
      (\<exists>d\<in>set (d # ds). accepted n sp d \<and> foundFile st1 = relPathOf n d)"
    using f s2 by auto
  moreover have "length (foundFile st) \<le> length (foundFile st1)" using g s3 by simp
  moreover have "\<forall>d\<in>set (d # ds). accepted n sp d \<longrightarrow> length (relPathOf n d) \<le> length (foundFile st1)"
    using h s4 g by auto
  ultimately show ?case by blast
qed

text \<open>
  Claim C6, amended. A file is found when the callback's test \<open>accepted\<close> holds of it:
  it is no directory and the recorded path ends with its root-relative path, whatever
  character comes before. When every visited entry that is no directory lies strictly
  below the module directory (as in the walk of a directory), the search returns a found
  file of greatest length; two found files of the same length are the same path, so that
  the result is also the least of them in lexicographic order and no tie is ever broken;
  the search ends with \<open>io.EOF\<close> when no file is found, and returns a file when one is.
\<close>

theorem C6_longest_match:
  assumes wf: "\<forall>d\<in>set entries. entryIsDir d \<or> length dir + 1 < length (entryPath d)"
  shows "(\<forall>f. findFile entries dir recordedPath = Inr f \<longrightarrow>
            (\<exists>d\<in>set entries. accepted (length dir) recordedPath d \<and> f = relPathOf (length dir) d)
          \<and> (\<forall>d\<in>set entries. accepted (length dir) recordedPath d \<longrightarrow>
                length (relPathOf (length dir) d) \<le> length f
              \<and> (length (relPathOf (length dir) d) = length f \<longrightarrow>
                    relPathOf (length dir) d = f \<and> f \<le> relPathOf (length dir) d)))
       \<and> ((\<forall>d\<in>set entries. \<not> accepted (length dir) recordedPath d) \<longrightarrow>
            findFile entries dir recordedPath = Inl EOF)
       \<and> ((\<exists>d\<in>set entries. accepted (length dir) recordedPath d) \<longrightarrow>
            (\<exists>f. findFile entries dir recordedPath = Inr f))"
proof -
  let ?n = "length dir"
  let ?st0 = "\<lparr>foundFile = [], printed = []\<rparr>"
  from wf have wf': "\<forall>d\<in>set entries. entryIsDir d \<or> ?n + 1 \<le> length (entryPath d)"
    by auto
  from walkDirLoop_ok[OF wf', of recordedPath ?st0] obtain st1 where
    l: "walkDirLoop ?n recordedPath entries ?st0 = Inr st1"
    and f: "foundFile st1 = [] \<or> (\<exists>d\<in>set entries. accepted ?n recordedPath d \<and> foundFile st1 = relPathOf ?n d)"
    and h: "\<forall>d\<in>set entries. accepted ?n recordedPath d \<longrightarrow> length (relPathOf ?n d) \<le> length (foundFile st1)"
    by auto
  have res: "findFile entries dir recordedPath = (if foundFile st1 = [] then Inl EOF else Inr (foundFile st1))"
    using l by (simp add: findFile_def)
  have nonempty: "relPathOf ?n d \<noteq> []" if "d \<in> set entries" "accepted ?n recordedPath d" for d
    using wf that by (auto simp: accepted_def relPathOf_def)
  have p1: "\<forall>g. findFile entries dir recordedPath = Inr g \<longrightarrow>
            (\<exists>d\<in>set entries. accepted (length dir) recordedPath d \<and> g = relPathOf (length dir) d)
          \<and> (\<forall>d\<in>set entries. accepted (length dir) recordedPath d \<longrightarrow>
                length (relPathOf (length dir) d) \<le> length g
              \<and> (length (relPathOf (length dir) d) = length g \<longrightarrow>
                    relPathOf (length dir) d = g \<and> g \<le> relPathOf (length dir) d))"
  proof (intro allI impI)
    fix g assume g: "findFile entries dir recordedPath = Inr g"
    from g res have ne: "foundFile st1 \<noteq> []" and eq: "g = foundFile st1"
      by (auto split: if_splits)
    from f ne eq obtain d0 where d0: "d0 \<in> set entries" "accepted ?n recordedPath d0"
      "g = relPathOf ?n d0" by auto
    have ex: "\<exists>d\<in>set entries. accepted ?n recordedPath d \<and> g = relPathOf ?n d"
      using d0 by (intro bexI[of _ d0]) simp_all
    have all: "\<forall>d\<in>set entries. accepted ?n recordedPath d \<longrightarrow>
                length (relPathOf ?n d) \<le> length g
              \<and> (length (relPathOf ?n d) = length g \<longrightarrow>
                    relPathOf ?n d = g \<and> g \<le> relPathOf ?n d)"
    proof (intro ballI impI)
      fix d assume d: "d \<in> set entries" "accepted ?n recordedPath d"
      have le: "length (relPathOf ?n d) \<le> length g" using h d eq by simp
      have tie: "relPathOf ?n d = g \<and> g \<le> relPathOf ?n d"
        if len: "length (relPathOf ?n d) = length g"
      proof -
        have "HasSuffix recordedPath g" using d0 by (simp add: accepted_def)
        moreover have "HasSuffix recordedPath (relPathOf ?n d)"
          using d by (simp add: accepted_def)
        ultimately have "g = relPathOf ?n d" using len by (intro HasSuffix_same_length) auto
        then show ?thesis by simp
      qed
      from le tie
      show "length (relPathOf ?n d) \<le> length g
              \<and> (length (relPathOf ?n d) = length g \<longrightarrow>
                    relPathOf ?n d = g \<and> g \<le> relPathOf ?n d)"
        by blast
    qed
    from ex all
    show "(\<exists>d\<in>set entries. accepted (length dir) recordedPath d \<and> g = relPathOf (length dir) d)
          \<and> (\<forall>d\<in>set entries. accepted (length dir) recordedPath d \<longrightarrow>
                length (relPathOf (length dir) d) \<le> length g
              \<and> (length (relPathOf (length dir) d) = length g \<longrightarrow>
                    relPathOf (length dir) d = g \<and> g \<le> relPathOf (length dir) d))"
      by (rule conjI)
  qed
  have p2: "(\<forall>d\<in>set entries. \<not> accepted ?n recordedPath d) \<longrightarrow>
      findFile entries dir recordedPath = Inl EOF"
    using f res by auto
  have p3: "(\<exists>d\<in>set entries. accepted ?n recordedPath d) \<longrightarrow>
      (\<exists>f. findFile entries dir recordedPath = Inr f)"
  proof
    assume "\<exists>d\<in>set entries. accepted ?n recordedPath d"
    then obtain d where d: "d \<in> set entries" "accepted ?n recordedPath d" by auto
    with h have "length (relPathOf ?n d) \<le> length (foundFile st1)" by simp
    with nonempty[OF d] have "foundFile st1 \<noteq> []" by auto
    with res show "\<exists>f. findFile entries dir recordedPath = Inr f" by simp
  qed
  show ?thesis by (rule conjI[OF p1 conjI[OF p2 p3]])
qed


theorem C6_longest_match_witness:
  "findFile [\<lparr>entryPath = ''/m'', entryIsDir = True\<rparr>,
             \<lparr>entryPath = ''/m/file.go'', entryIsDir = False\<rparr>,
             \<lparr>entryPath = ''/m/pkg'', entryIsDir = True\<rparr>,
             \<lparr>entryPath = ''/m/pkg/file.go'', entryIsDir = False\<rparr>] ''/m'' ''/build/pkg/file.go''
     = Inr ''pkg/file.go''
   \<and> length ''file.go'' \<le> length ''pkg/file.go''
   \<and> findFile [\<lparr>entryPath = ''/m'', entryIsDir = True\<rparr>,
             \<lparr>entryPath = ''/m/file.go'', entryIsDir = False\<rparr>,
             \<lparr>entryPath = ''/m/pkg'', entryIsDir = True\<rparr>,
             \<lparr>entryPath = ''/m/pkg/file.go'', entryIsDir = False\<rparr>] ''/m'' ''/build/other.go''
     = Inl EOF"
proof -
  let ?E = "[\<lparr>entryPath = ''/m'', entryIsDir = True\<rparr>,
             \<lparr>entryPath = ''/m/file.go'', entryIsDir = False\<rparr>,
             \<lparr>entryPath = ''/m/pkg'', entryIsDir = True\<rparr>,
             \<lparr>entryPath = ''/m/pkg/file.go'', entryIsDir = False\<rparr>]"
  have wf: "\<forall>d\<in>set ?E. entryIsDir d \<or> length ''/m'' + 1 < length (entryPath d)"
    by simp
  have ev: "findFile ?E ''/m'' ''/build/pkg/file.go'' = Inr ''pkg/file.go''"
    by (simp add: findFile_def walkFn_def HasSuffix_def Let_def)
  have a: "accepted (length ''/m'') ''/build/pkg/file.go'' \<lparr>entryPath = ''/m/file.go'', entryIsDir = False\<rparr>"
    by (simp add: accepted_def relPathOf_def HasSuffix_def)
  have r: "relPathOf (length ''/m'') \<lparr>entryPath = ''/m/file.go'', entryIsDir = False\<rparr> = ''file.go''"
    by (simp add: relPathOf_def)
  have none: "\<forall>d\<in>set ?E. \<not> accepted (length ''/m'') ''/build/other.go'' d"
    by (simp add: accepted_def relPathOf_def HasSuffix_def)
  note t1 = C6_longest_match[OF wf, of "''/build/pkg/file.go''", THEN conjunct1, rule_format, OF ev,
      THEN conjunct2, rule_format, of "\<lparr>entryPath = ''/m/file.go'', entryIsDir = False\<rparr>", OF _ a,
      THEN conjunct1]
  have l: "length ''file.go'' \<le> length ''pkg/file.go''"
    using t1 r by simp
  have e: "findFile ?E ''/m'' ''/build/other.go'' = Inl EOF"
    using C6_longest_match[OF wf, of "''/build/other.go''", THEN conjunct2, THEN conjunct1] none
    by (rule mp)
  from ev l e show ?thesis by (intro conjI)
qed



text \<open>
  Claim C6 as stated is about the files that match in the sense of the specification,
  where the suffix has to start at a path separator. With the files \<open>file.go\<close> and
  \<open>pkg/file.go\<close> and the recorded path \<open>/build/xpkg/file.go\<close>, only \<open>file.go\<close>
  matches in that sense, and the search returns \<open>pkg/file.go\<close>, which does not. With
  the one file \<open>til.go\<close> and the recorded path \<open>/build/util.go\<close> no file matches in
  that sense, and the search returns \<open>til.go\<close> where the claim has it fail.
\<close>

theorem C6_segment_match_counterexample:
  "findFile [\<lparr>entryPath = ''/m'', entryIsDir = True\<rparr>,
             \<lparr>entryPath = ''/m/file.go'', entryIsDir = False\<rparr>,
             \<lparr>entryPath = ''/m/pkg'', entryIsDir = True\<rparr>,
             \<lparr>entryPath = ''/m/pkg/file.go'', entryIsDir = False\<rparr>] ''/m'' ''/build/xpkg/file.go''
     = Inr ''pkg/file.go''
   \<and> segmentAlignedSuffix ''/build/xpkg/file.go'' ''file.go''
   \<and> \<not> segmentAlignedSuffix ''/build/xpkg/file.go'' ''pkg/file.go''
   \<and> findFile [\<lparr>entryPath = ''/m'', entryIsDir = True\<rparr>,
               \<lparr>entryPath = ''/m/til.go'', entryIsDir = False\<rparr>] ''/m'' ''/build/util.go''
     = Inr ''til.go''
   \<and> \<not> segmentAlignedSuffix ''/build/util.go'' ''til.go''"
  by (simp add: findFile_def walkFn_def HasSuffix_def segmentAlignedSuffix_def Let_def)

section \<open>Writing the content\<close>

declare writeSourceGo_walk.simps [simp del]

text \<open>
  Claim C10. When content is written for a \<open>SourceSpec\<close> with a non-empty \<open>Repo\<close>, the
  module is downloaded at the revision of the spec if that is not empty, else at the
  caller's revision if that is not empty, else at \<open>latest\<close>.
\<close>

theorem C10_revision_precedence:
  assumes "Repo s \<noteq> []"
  shows "writeContent env s revision w =
           writeSourceGo env (Repo s)
             (if Revision s \<noteq> [] then Revision s
              else if revision \<noteq> [] then revision else ''latest'')
             (RelativePath s) w"
  using assms by (simp add: writeContent_def Let_def)

theorem C10_revision_precedence_witness:
  "writeContent exampleEnv
      \<lparr>Repo = ''github.com/felixge/httpsnoop'', RelativePath = ''capture_metrics.go'',
       Revision = ''v1.0.3''\<rparr> ''v9.9.9'' emptyResponse
     = writeSourceGo exampleEnv ''github.com/felixge/httpsnoop'' ''v1.0.3'' ''capture_metrics.go''
         emptyResponse
   \<and> writeContent exampleEnv
      \<lparr>Repo = ''github.com/felixge/httpsnoop'', RelativePath = ''capture_metrics.go'',
       Revision = []\<rparr> ''v9.9.9'' emptyResponse
     = writeSourceGo exampleEnv ''github.com/felixge/httpsnoop'' ''v9.9.9'' ''capture_metrics.go''
         emptyResponse
   \<and> writeContent exampleEnv
      \<lparr>Repo = ''github.com/felixge/httpsnoop'', RelativePath = ''capture_metrics.go'',
       Revision = []\<rparr> [] emptyResponse
     = writeSourceGo exampleEnv ''github.com/felixge/httpsnoop'' ''latest'' ''capture_metrics.go''
         emptyResponse"
  using C10_revision_precedence[of "\<lparr>Repo = ''github.com/felixge/httpsnoop'',
          RelativePath = ''capture_metrics.go'', Revision = ''v1.0.3''\<rparr>" exampleEnv "''v9.9.9''" emptyResponse]
        C10_revision_precedence[of "\<lparr>Repo = ''github.com/felixge/httpsnoop'',
          RelativePath = ''capture_metrics.go'', Revision = []\<rparr>" exampleEnv "''v9.9.9''" emptyResponse]
        C10_revision_precedence[of "\<lparr>Repo = ''github.com/felixge/httpsnoop'',
          RelativePath = ''capture_metrics.go'', Revision = []\<rparr>" exampleEnv "[]" emptyResponse]
  by simp

lemma writeContent_example:
  "writeContent exampleEnv
      \<lparr>Repo = ''github.com/felixge/httpsnoop'', RelativePath = ''capture_metrics.go'',
       Revision = ''v1.0.3''\<rparr> ''v9.9.9'' emptyResponse
     = (None, \<lparr>status = Some 200, body = ''package httpsnoop''\<rparr>)"
  by (simp add: writeContent_def writeSourceGo_def exampleEnv_def emptyResponse_def ioCopy_def
      Write_def WriteHeader_def Let_def)

text \<open>
  Claim C8. Every error of the core reaches the request boundary unchanged; in particular
  a failed open of the standard-library file is propagated. In the example environment
  the file \<open>/usr/local/go/src/io.go\<close> cannot be opened; \<open>writeStdLibGo\<close> does not
  return that error but \<open>os.ErrInvalid\<close>, the error of reading the nil file.
\<close>

theorem C8_open_error_dropped:
  "osOpen exampleEnv (filepathJoin exampleEnv [''/usr/local/go'', ''src'', ''io.go''])
     = Inl (External ''no such file or directory'')
   \<and> writeStdLibGo exampleEnv ''io.go'' emptyResponse = (Some ErrInvalid, emptyResponse)"
  by (simp add: writeStdLibGo_def exampleEnv_def emptyResponse_def ioCopy_def)

lemma writeStdLibGo_open_error:
  assumes "goEnvGOROOT env = Inr goRoot"
    and "osOpen env (filepathJoin env [stringsTrimSpace env goRoot, ''src'', sourcePath]) = Inl e"
  shows "writeStdLibGo env sourcePath w = (Some ErrInvalid, w)"
  using assms by (simp add: writeStdLibGo_def ioCopy_def)

lemma writeSourceGo_open_error:
  assumes "runGoModDownload env (repo @ ''@'' @ revision) = (out, None)"
    and "jsonUnmarshal env out = Inr info"
    and "osOpen env (filepathJoin env [Dir info, path]) = Inl e"
  shows "writeSourceGo env repo revision path w = (Some e, w)"
  using assms by (simp add: writeSourceGo_def)

text \<open>
  Claim C9. On a successful request the response body is exactly the bytes of the file. In
  the server that takes \<open>repo\<close>, the handler writes \<open>"hello\n"\<close> after the content.
\<close>

theorem C9_hello_appended:
  "handleSourceGo_repo exampleEnv exampleQuery emptyResponse
     = Inr \<lparr>status = Some 200, body = ''package httpsnoop'' @ ''hello'' @ [CHR 0x0A]\<rparr>"
  by (simp add: handleSourceGo_repo_def exampleQuery_def exampleEnv_def emptyResponse_def
      writeSourceGo_walk.simps pkgModDep_def findFile_def walkFn_def HasSuffix_def HasPrefix_def
      ioCopy_def Write_def WriteHeader_def Let_def)

lemma handleSourceGo_repo_success:
  assumes "q ''repo'' \<noteq> []" and "q ''path'' \<noteq> []"
    and "writeSourceGo_walk env (q ''repo'')
           (if q ''revision'' = [] then ''latest'' else q ''revision'') (q ''path'') w = (None, w1)"
  shows "handleSourceGo_repo env q w = Inr (Write w1 (''hello'' @ [CHR 0x0A]))"
  using assms by (simp add: handleSourceGo_repo_def Let_def)

lemma handleSourceGo_success:
  assumes "q ''path'' \<noteq> []"
    and "resolveImportPath (q ''function'') (q ''path'') = Inr spec"
    and "writeContent env spec (if q ''revision'' = [] then ''latest'' else q ''revision'') w = (None, w1)"
  shows "handleSourceGo env q w = Inr w1"
  using assms by (simp add: handleSourceGo_def Let_def)

lemma writeSourceGo_success:
  assumes "writeSourceGo env repo revision path w = (None, w1)"
  shows "\<exists>out info fl. runGoModDownload env (repo @ ''@'' @ revision) = (out, None)
           \<and> jsonUnmarshal env out = Inr info
           \<and> osOpen env (filepathJoin env [Dir info, path]) = Inr fl
           \<and> readErr fl = None \<and> body w1 = body w @ content fl"
  using assms
  by (auto simp: writeSourceGo_def ioCopy_def Write_def WriteHeader_def Let_def
      split: prod.splits sum.splits option.splits if_splits)

lemma writeStdLibGo_success:
  assumes "writeStdLibGo env sourcePath w = (None, w1)"
  shows "\<exists>goRoot fl. goEnvGOROOT env = Inr goRoot
           \<and> osOpen env (filepathJoin env [stringsTrimSpace env goRoot, ''src'', sourcePath]) = Inr fl
           \<and> readErr fl = None \<and> body w1 = body w @ content fl"
  using assms
  by (auto simp: writeStdLibGo_def ioCopy_def Write_def WriteHeader_def Let_def
      split: sum.splits option.splits if_splits)


end
